theory Spec2Isabelle
  imports Main "HOL-Library.Word"
begin

unbundle bit_operations_syntax

section \<open>Compact integer codecs of various.go\<close>

type_synonym byte = "8 word"
type_synonym uint32 = "32 word"
type_synonym uint64 = "64 word"

text \<open>
  A Go slice read at an index beyond its length panics. The decoders index the
  slice at 2 (respectively 5) and below, so they panic exactly when the slice is
  shorter than 3 (respectively 6) bytes; the panic is the value \<open>None\<close>.
  \<open>uint32(b) << k\<close> is a zero extension followed by a left shift.
\<close>

definition uint24Decode :: "byte list \<Rightarrow> uint32 option" where
  "uint24Decode inp =
     (if length inp \<le> 2 then None
      else Some (push_bit 16 (ucast (inp ! 2)) OR push_bit 8 (ucast (inp ! 1)) OR ucast (inp ! 0)))"

text \<open>\<open>byte(x)\<close> keeps the low 8 bits, \<open>x >> k\<close> is a logical shift on unsigned values.\<close>

definition uint24Encode :: "uint32 \<Rightarrow> byte list" where
  "uint24Encode inp = [ucast inp, ucast (drop_bit 8 inp), ucast (drop_bit 16 inp)]"

definition uint48Decode :: "byte list \<Rightarrow> uint64 option" where
  "uint48Decode inp =
     (if length inp \<le> 5 then None
      else Some (push_bit 40 (ucast (inp ! 5)) OR push_bit 32 (ucast (inp ! 4))
                 OR push_bit 24 (ucast (inp ! 3)) OR push_bit 16 (ucast (inp ! 2))
                 OR push_bit 8 (ucast (inp ! 1)) OR ucast (inp ! 0)))"

definition uint48Encode :: "uint64 \<Rightarrow> byte list" where
  "uint48Encode inp =
     [ucast inp, ucast (drop_bit 8 inp), ucast (drop_bit 16 inp),
      ucast (drop_bit 24 inp), ucast (drop_bit 32 inp), ucast (drop_bit 40 inp)]"

text \<open>
  The reading of "the \<open>n\<close> low-order bytes, least significant first" that the
  encoders are compared with: byte \<open>i\<close> is digit \<open>i\<close> of the number in base 256.
\<close>

definition low_bytes_le :: "nat \<Rightarrow> nat \<Rightarrow> byte list" where
  "low_bytes_le n x = map (\<lambda>i. of_nat (x div 256 ^ i mod 256)) [0..<n]"

section \<open>Little-endian primitives of the payload codec\<close>

text \<open>
  Modelled from the spec: the primitive codec of the dialect message codec is not among
  the source files. The spec says that all integers are little-endian and that a scalar of
  a given width is written as that many bytes; \<open>le_encode n x\<close> is the
  \<open>n\<close> low-order bytes of \<open>x\<close>, least significant first, and
  \<open>le_decode\<close> reads such a run of bytes back into a zero-extended word.
\<close>

fun le_encode :: "nat \<Rightarrow> 'a::len word \<Rightarrow> byte list" where
  "le_encode 0 x = []"
| "le_encode (Suc n) x = ucast x # le_encode n (drop_bit 8 x)"

fun le_decode :: "byte list \<Rightarrow> 'a::len word" where
  "le_decode [] = 0"
| "le_decode (b # bs) = ucast b OR push_bit 8 (le_decode bs)"

section \<open>The dialect message codec\<close>

text \<open>
  Modelled from the spec: the schema builder (\<open>newDialectMessage\<close>) and the
  message codec (\<open>encode\<close>, \<open>decode\<close>) that the tests of the
  repository call are not among the source files. The definitions of this section follow
  sections 3, 4.1, 4.2, 4.4, 4.5 and 7 of the specification; the message declarations
  further down are the structures of the test file. The canonical wire name of a field and
  the extra CRC of a schema serve only the signature of section 4.3, which the codec does
  not read; they are left out.
\<close>

text \<open>
  Modelled from the spec: the closed enumeration of primitive wire types of section 3.
\<close>

datatype prim = U8 | I8 | U16 | I16 | U32 | I32 | U64 | I64 | U24 | U48 | F32 | F64 | Char

text \<open>
  Modelled from the spec: the fixed wire width in bytes of each primitive wire type.
\<close>

fun width :: "prim \<Rightarrow> nat" where
  "width U8 = 1" | "width I8 = 1" | "width U16 = 2" | "width I16 = 2"
| "width U32 = 4" | "width I32 = 4" | "width U64 = 8" | "width I64 = 8"
| "width U24 = 3" | "width U48 = 6" | "width F32 = 4" | "width F64 = 8"
| "width Char = 1"

text \<open>
  Modelled from the spec: \<open>U24\<close> and \<open>U48\<close> have no native
  primitive and are carried in the next larger unsigned integer: the width of the value in
  memory.
\<close>

fun storage_width :: "prim \<Rightarrow> nat" where
  "storage_width U24 = 4"
| "storage_width U48 = 8"
| "storage_width t = width t"

text \<open>
  Modelled from the spec: the signed integer wire types.
\<close>

fun is_signed :: "prim \<Rightarrow> bool" where
  "is_signed I8 = True" | "is_signed I16 = True" | "is_signed I32 = True"
| "is_signed I64 = True" | "is_signed t = False"

text \<open>
  Modelled from the spec: the error kinds of section 7 that the builder and the codec
  report, and \<open>IndexOutOfRange\<close> for the panic of the Go runtime on an index
  beyond the length of a slice.
\<close>

datatype error = InvalidSchema | PayloadTooLong | UnsupportedField | EmptyPayload | IndexOutOfRange

text \<open>
  Modelled from the spec: one field as a declarative source gives it: the logical name,
  the logical type (a declared primitive, a string, or a named type that is not a declared
  primitive, such as an enumeration), and the optional attributes: array length, explicit
  wire name, wire type of an enumeration, string length, extension flag.
\<close>

datatype logical_type = LPrim prim | LString | LNamed

record field_decl =
  fd_name :: string
  fd_type :: logical_type
  fd_array :: "nat option"
  mavname :: "string option"
  mavenum :: "prim option"
  mavlen :: "nat option"
  mavext :: bool

record message_decl =
  md_name :: string
  md_id :: nat
  md_fields :: "field_decl list"

text \<open>
  Modelled from the spec: the normalised field descriptor of section 3.
  \<open>index\<close> is the position of the field in the declared field list: the wire
  order differs from the declaration order, and the codec finds the logical field of a
  wire field through it.
\<close>

record field =
  logical_name :: string
  wire_type :: prim
  array_length :: nat
  is_extension :: bool
  is_enum :: bool
  index :: nat

record schema =
  msg_id :: nat
  declared :: "field list"
  wfields :: "field list"
  size_normal :: nat
  size_extended :: nat

subsection \<open>The schema builder\<close>

text \<open>
  Modelled from the spec: step 1 and 2 for one declared field: the wire type is the
  explicit override if there is one, else the logical type; a string needs a length; a
  named type needs an override.
\<close>

definition derive_field :: "nat \<Rightarrow> field_decl \<Rightarrow> error + field" where
  "derive_field i d =
     (case (case mavenum d of
              Some t \<Rightarrow> Some t
            | None \<Rightarrow> (case fd_type d of LPrim t \<Rightarrow> Some t | LString \<Rightarrow> Some Char | LNamed \<Rightarrow> None)) of
        None \<Rightarrow> Inl InvalidSchema
      | Some t \<Rightarrow>
          (case (if fd_type d = LString then mavlen d
                 else (case fd_array d of Some n \<Rightarrow> Some n | None \<Rightarrow> Some 0)) of
             None \<Rightarrow> Inl InvalidSchema
           | Some n \<Rightarrow>
               Inr \<lparr>logical_name = fd_name d,
                    wire_type = t, array_length = n, is_extension = mavext d,
                    is_enum = (mavenum d \<noteq> None), index = i\<rparr>))"

text \<open>
  Modelled from the spec: the walk over the declared fields in declaration order; it stops
  at the first field that has no descriptor.
\<close>

fun derive_fields :: "nat \<Rightarrow> field_decl list \<Rightarrow> error + field list" where
  "derive_fields i [] = Inr []"
| "derive_fields i (d # ds) =
     (case derive_field i d of
        Inl e \<Rightarrow> Inl e
      | Inr f \<Rightarrow> (case derive_fields (Suc i) ds of Inl e \<Rightarrow> Inl e | Inr fs \<Rightarrow> Inr (f # fs)))"

text \<open>
  Modelled from the spec: once the first extension field appears, all later fields must be
  extensions.
\<close>

fun extensions_last :: "field list \<Rightarrow> bool" where
  "extensions_last [] = True"
| "extensions_last (f # fs) =
     (if is_extension f then list_all is_extension fs else extensions_last fs)"

text \<open>
  Modelled from the spec: the size of a field on the wire is its width times the array
  length, or times one for a scalar; a payload size is the sum of the field sizes.
\<close>

definition field_size :: "field \<Rightarrow> nat" where
  "field_size f = width (wire_type f) * (if array_length f = 0 then 1 else array_length f)"

definition payload_size :: "field list \<Rightarrow> nat" where
  "payload_size fs = sum_list (map field_size fs)"

text \<open>
  Modelled from the spec: step 4: the stable sort of the non-extension fields by
  descending per-element wire width (\<open>U24\<close> sorts as 3, \<open>U48\<close> as
  6, \<open>Char\<close> as 1). \<open>sort_key\<close> is the stable insertion sort of
  the list library.
\<close>

definition sort_fields :: "field list \<Rightarrow> field list" where
  "sort_fields fs = sort_key (\<lambda>f. - int (width (wire_type f))) fs"

text \<open>
  Modelled from the spec: steps 3 and 5, the sorted non-extension fields followed by the
  extension fields in declaration order.
\<close>

definition wire_fields :: "field list \<Rightarrow> field list" where
  "wire_fields fs =
     sort_fields (filter (\<lambda>f. \<not> is_extension f) fs) @ filter is_extension fs"

text \<open>
  Modelled from the spec: the schema of a message declaration, or
  \<open>InvalidSchema\<close>.
\<close>

definition newDialectMessage :: "message_decl \<Rightarrow> error + schema" where
  "newDialectMessage m =
     (case derive_fields 0 (md_fields m) of
        Inl e \<Rightarrow> Inl e
      | Inr fs \<Rightarrow>
          if \<not> extensions_last fs then Inl InvalidSchema
          else Inr \<lparr>msg_id = md_id m, declared = fs, wfields = wire_fields fs,
                    size_normal = payload_size (filter (\<lambda>f. \<not> is_extension f) fs),
                    size_extended = payload_size fs\<rparr>)"

subsection \<open>Structured values\<close>

text \<open>
  Modelled from the spec: a structured value is the list of the values of the declared
  fields, in declaration order. A number is held as the bit pattern of its representation
  in memory, zero-extended to 64 bits (a float as its IEEE-754 bit pattern, which the
  codec transfers unchanged); the value of an enumeration-backed field is a 64-bit signed
  integer in two's complement. A string is its bytes.
\<close>

datatype val = Num uint64 | Str "byte list" | Arr "uint64 list"

text \<open>
  Modelled from the spec: the zero value of a field.
\<close>

definition zero_value :: "field \<Rightarrow> val" where
  "zero_value f =
     (if wire_type f = Char then Str []
      else if array_length f = 0 then Num 0
      else Arr (replicate (array_length f) 0))"

text \<open>
  Modelled from the spec: the field descriptors the codec handles: a \<open>Char\<close>
  field is a string with a positive length and no enumeration; an enumeration is backed by
  an integer type.
\<close>

definition supported :: "field \<Rightarrow> bool" where
  "supported f =
     (if wire_type f = Char then 0 < array_length f \<and> \<not> is_enum f
      else \<not> (is_enum f \<and> (wire_type f = F32 \<or> wire_type f = F64)))"

subsection \<open>Encode\<close>

text \<open>
  Modelled from the spec: a scalar is written as \<open>width\<close> bytes,
  little-endian; \<open>U24\<close> and \<open>U48\<close> go through the compact codecs
  of various.go. An enumeration value is cast to the declared wire type, which keeps its
  low bytes.
\<close>

definition enc_scalar :: "prim \<Rightarrow> uint64 \<Rightarrow> byte list" where
  "enc_scalar t x =
     (if t = U24 then uint24Encode (ucast x)
      else if t = U48 then uint48Encode x
      else le_encode (width t) x)"

text \<open>
  Modelled from the spec: a string is truncated to the declared length and zero-padded to
  it; the elements of a numeric array are written one after the other. A value that has
  not the shape of the field has no encoding.
\<close>

definition enc_string :: "nat \<Rightarrow> byte list \<Rightarrow> byte list" where
  "enc_string n s = take n s @ replicate (n - length s) 0"

definition enc_field :: "field \<Rightarrow> val \<Rightarrow> error + byte list" where
  "enc_field f v =
     (if \<not> supported f then Inl UnsupportedField
      else case v of
        Str s \<Rightarrow> if wire_type f = Char then Inr (enc_string (array_length f) s)
                 else Inl UnsupportedField
      | Num x \<Rightarrow> if wire_type f \<noteq> Char \<and> array_length f = 0
                 then Inr (enc_scalar (wire_type f) x) else Inl UnsupportedField
      | Arr xs \<Rightarrow> if wire_type f \<noteq> Char \<and> 0 < array_length f \<and> length xs = array_length f
                  then Inr (concat (map (enc_scalar (wire_type f)) xs))
                  else Inl UnsupportedField)"

text \<open>
  Modelled from the spec: the walk over the wire field list; each field is written behind
  the previous one, so the buffer is the concatenation of the field encodings.
\<close>

fun enc_fields :: "field list \<Rightarrow> val list \<Rightarrow> error + byte list" where
  "enc_fields [] vs = Inr []"
| "enc_fields (f # fs) vs =
     (if length vs \<le> index f then Inl IndexOutOfRange
      else case enc_field f (vs ! index f) of
        Inl e \<Rightarrow> Inl e
      | Inr bs \<Rightarrow> (case enc_fields fs vs of Inl e \<Rightarrow> Inl e | Inr r \<Rightarrow> Inr (bs @ r)))"

text \<open>
  Modelled from the spec: trailing-zero truncation: strip trailing bytes equal to zero,
  never below one byte. \<open>strip_zeros\<close> works on the reversed buffer.
\<close>

fun strip_zeros :: "byte list \<Rightarrow> byte list" where
  "strip_zeros (x # y # ys) = (if x = 0 then strip_zeros (y # ys) else x # y # ys)"
| "strip_zeros [x] = [x]"
| "strip_zeros [] = []"

definition truncate_zeros :: "byte list \<Rightarrow> byte list" where
  "truncate_zeros buf = rev (strip_zeros (rev buf))"

text \<open>
  Modelled from the spec: step 3 of section 4.4: at v1 the buffer is cut to the
  non-extension payload size, at v2 its trailing zero bytes are stripped.
\<close>

definition encode :: "schema \<Rightarrow> val list \<Rightarrow> bool \<Rightarrow> error + byte list" where
  "encode s vs isV2 =
     (case enc_fields (wfields s) vs of
        Inl e \<Rightarrow> Inl e
      | Inr buf \<Rightarrow> if isV2 then Inr (truncate_zeros buf) else Inr (take (size_normal s) buf))"

subsection \<open>Decode\<close>

text \<open>
  Modelled from the spec: a scalar is read from \<open>width\<close> bytes, little-endian.
  The value of an enumeration backed by a signed type is sign-extended to the 64 bits of
  the logical value.
\<close>

definition dec_scalar :: "field \<Rightarrow> byte list \<Rightarrow> error + uint64" where
  "dec_scalar f bs =
     (case (if wire_type f = U24 then map_option ucast (uint24Decode bs)
            else if wire_type f = U48 then uint48Decode bs
            else Some (le_decode bs)) of
        None \<Rightarrow> Inl IndexOutOfRange
      | Some x \<Rightarrow>
          if is_enum f \<and> is_signed (wire_type f)
          then Inr (signed_take_bit (8 * width (wire_type f) - 1) x)
          else Inr x)"

text \<open>
  Modelled from the spec: the elements of a numeric array are read one after the other.
\<close>

fun dec_elems :: "field \<Rightarrow> nat \<Rightarrow> byte list \<Rightarrow> error + uint64 list" where
  "dec_elems f 0 bs = Inr []"
| "dec_elems f (Suc k) bs =
     (case dec_scalar f (take (width (wire_type f)) bs) of
        Inl e \<Rightarrow> Inl e
      | Inr x \<Rightarrow> (case dec_elems f k (drop (width (wire_type f)) bs) of
                    Inl e \<Rightarrow> Inl e
                  | Inr xs \<Rightarrow> Inr (x # xs)))"

text \<open>
  Modelled from the spec: a string is the run of bytes in front of the first zero byte.
\<close>

definition dec_field :: "field \<Rightarrow> byte list \<Rightarrow> error + val" where
  "dec_field f bs =
     (if \<not> supported f then Inl UnsupportedField
      else if wire_type f = Char then Inr (Str (takeWhile (\<lambda>b. b \<noteq> 0) bs))
      else if array_length f = 0
      then (case dec_scalar f bs of Inl e \<Rightarrow> Inl e | Inr x \<Rightarrow> Inr (Num x))
      else (case dec_elems f (array_length f) bs of Inl e \<Rightarrow> Inl e | Inr xs \<Rightarrow> Inr (Arr xs)))"

text \<open>
  Modelled from the spec: the walk over the wire field list; each field is read from the
  current offset and stored in the logical field it belongs to.
\<close>

fun dec_fields :: "field list \<Rightarrow> byte list \<Rightarrow> val list \<Rightarrow> error + val list" where
  "dec_fields [] buf vs = Inr vs"
| "dec_fields (f # fs) buf vs =
     (if length vs \<le> index f then Inl IndexOutOfRange
      else case dec_field f (take (field_size f) buf) of
        Inl e \<Rightarrow> Inl e
      | Inr v \<Rightarrow> dec_fields fs (drop (field_size f) buf) (vs[index f := v]))"

text \<open>
  Modelled from the spec: the input is refused when it is empty or longer than expected; a
  shorter input is padded with zero bytes. In v1 the walk stops at the non-extension
  payload size, so only the non-extension fields are read and the others keep their zero
  value.
\<close>

definition decode :: "schema \<Rightarrow> byte list \<Rightarrow> bool \<Rightarrow> error + val list" where
  "decode s buf isV2 =
     (let expected = (if isV2 then size_extended s else size_normal s) in
      if buf = [] then Inl EmptyPayload
      else if expected < length buf then Inl PayloadTooLong
      else dec_fields (if isV2 then wfields s else filter (\<lambda>f. \<not> is_extension f) (wfields s))
             (buf @ replicate (expected - length buf) 0)
             (map zero_value (declared s)))"

subsection \<open>The message structures of the test file\<close>

definition bytes_of :: "string \<Rightarrow> byte list" where
  "bytes_of s = map (\<lambda>c. of_nat (of_char c)) s"

definition plain :: "string \<Rightarrow> logical_type \<Rightarrow> field_decl" where
  "plain n t = \<lparr>fd_name = n, fd_type = t, fd_array = None, mavname = None,
                 mavenum = None, mavlen = None, mavext = False\<rparr>"

definition MessageHeartbeat :: message_decl where
  "MessageHeartbeat = \<lparr>md_name = ''MessageHeartbeat'', md_id = 0, md_fields =
     [(plain ''Type'' LNamed)\<lparr>mavenum := Some U8\<rparr>,
      (plain ''Autopilot'' LNamed)\<lparr>mavenum := Some U8\<rparr>,
      (plain ''BaseMode'' LNamed)\<lparr>mavenum := Some U8\<rparr>,
      plain ''CustomMode'' (LPrim U32),
      (plain ''SystemStatus'' LNamed)\<lparr>mavenum := Some U8\<rparr>,
      plain ''MavlinkVersion'' (LPrim U8)]\<rparr>"

definition MessageSysStatus :: message_decl where
  "MessageSysStatus = \<lparr>md_name = ''MessageSysStatus'', md_id = 1, md_fields =
     [(plain ''OnboardControlSensorsPresent'' LNamed)\<lparr>mavenum := Some U32\<rparr>,
      (plain ''OnboardControlSensorsEnabled'' LNamed)\<lparr>mavenum := Some U32\<rparr>,
      (plain ''OnboardControlSensorsHealth'' LNamed)\<lparr>mavenum := Some U32\<rparr>,
      plain ''Load'' (LPrim U16),
      plain ''VoltageBattery'' (LPrim U16),
      plain ''CurrentBattery'' (LPrim I16),
      plain ''BatteryRemaining'' (LPrim I8),
      plain ''DropRateComm'' (LPrim U16),
      plain ''ErrorsComm'' (LPrim U16),
      plain ''ErrorsCount1'' (LPrim U16),
      plain ''ErrorsCount2'' (LPrim U16),
      plain ''ErrorsCount3'' (LPrim U16),
      plain ''ErrorsCount4'' (LPrim U16)]\<rparr>"

definition MessageChangeOperatorControl :: message_decl where
  "MessageChangeOperatorControl =
     \<lparr>md_name = ''MessageChangeOperatorControl'', md_id = 5, md_fields =
     [plain ''TargetSystem'' (LPrim U8),
      plain ''ControlRequest'' (LPrim U8),
      plain ''Version'' (LPrim U8),
      (plain ''Passkey'' LString)\<lparr>mavlen := Some 25\<rparr>]\<rparr>"

definition MessageAttitudeQuaternionCov :: message_decl where
  "MessageAttitudeQuaternionCov =
     \<lparr>md_name = ''MessageAttitudeQuaternionCov'', md_id = 61, md_fields =
     [plain ''TimeUsec'' (LPrim U64),
      (plain ''Q'' (LPrim F32))\<lparr>fd_array := Some 4\<rparr>,
      plain ''Rollspeed'' (LPrim F32),
      plain ''Pitchspeed'' (LPrim F32),
      plain ''Yawspeed'' (LPrim F32),
      (plain ''Covariance'' (LPrim F32))\<lparr>fd_array := Some 9\<rparr>]\<rparr>"

definition MessageOpticalFlow :: message_decl where
  "MessageOpticalFlow = \<lparr>md_name = ''MessageOpticalFlow'', md_id = 100, md_fields =
     [plain ''TimeUsec'' (LPrim U64),
      plain ''SensorId'' (LPrim U8),
      plain ''FlowX'' (LPrim I16),
      plain ''FlowY'' (LPrim I16),
      plain ''FlowCompMX'' (LPrim F32),
      plain ''FlowCompMY'' (LPrim F32),
      plain ''Quality'' (LPrim U8),
      plain ''GroundDistance'' (LPrim F32),
      (plain ''FlowRateX'' (LPrim F32))\<lparr>mavext := True\<rparr>,
      (plain ''FlowRateY'' (LPrim F32))\<lparr>mavext := True\<rparr>]\<rparr>"

definition MessagePlayTune :: message_decl where
  "MessagePlayTune = \<lparr>md_name = ''MessagePlayTune'', md_id = 258, md_fields =
     [plain ''TargetSystem'' (LPrim U8),
      plain ''TargetComponent'' (LPrim U8),
      (plain ''Tune'' LString)\<lparr>mavlen := Some 30\<rparr>,
      (plain ''Tune2'' LString)\<lparr>mavext := True, mavlen := Some 200\<rparr>]\<rparr>"

definition MessageAhrs :: message_decl where
  "MessageAhrs = \<lparr>md_name = ''MessageAhrs'', md_id = 163, md_fields =
     [(plain ''OmegaIx'' (LPrim F32))\<lparr>mavname := Some ''omegaIx''\<rparr>,
      (plain ''OmegaIy'' (LPrim F32))\<lparr>mavname := Some ''omegaIy''\<rparr>,
      (plain ''OmegaIz'' (LPrim F32))\<lparr>mavname := Some ''omegaIz''\<rparr>,
      plain ''AccelWeight'' (LPrim F32),
      plain ''RenormVal'' (LPrim F32),
      plain ''ErrorRp'' (LPrim F32),
      plain ''ErrorYaw'' (LPrim F32)]\<rparr>"

text \<open>
  The helpers of the test file build the schema of a message structure and call the
  codec on it; here they return the result instead of comparing it.
\<close>

definition testMessageEncode :: "message_decl \<Rightarrow> bool \<Rightarrow> val list \<Rightarrow> error + byte list" where
  "testMessageEncode m isV2 msg =
     (case newDialectMessage m of Inl e \<Rightarrow> Inl e | Inr mp \<Rightarrow> encode mp msg isV2)"

definition testMessageDecode :: "message_decl \<Rightarrow> bool \<Rightarrow> byte list \<Rightarrow> error + val list" where
  "testMessageDecode m isV2 byt =
     (case newDialectMessage m of Inl e \<Rightarrow> Inl e | Inr mp \<Rightarrow> decode mp byt isV2)"

subsection \<open>Well-typed values\<close>

text \<open>
  A value is well typed for a field when it has the shape of the field and each number
  is in the range of the type that holds it in memory: \<open>storage_width\<close> bytes, or a
  64-bit integer for an enumeration. A string is well typed whatever its length.
\<close>

definition in_storage :: "field \<Rightarrow> uint64 \<Rightarrow> bool" where
  "in_storage f x = (is_enum f \<or> unat x < 2 ^ (8 * storage_width (wire_type f)))"

definition conforms :: "field \<Rightarrow> val \<Rightarrow> bool" where
  "conforms f v =
     (supported f \<and>
      (case v of
         Str s \<Rightarrow> wire_type f = Char
       | Num x \<Rightarrow> wire_type f \<noteq> Char \<and> array_length f = 0 \<and> in_storage f x
       | Arr xs \<Rightarrow> wire_type f \<noteq> Char \<and> 0 < array_length f \<and>
                   length xs = array_length f \<and> list_all (in_storage f) xs))"

definition well_typed :: "schema \<Rightarrow> val list \<Rightarrow> bool" where
  "well_typed s vs = list_all2 conforms (declared s) vs"

text \<open>
  A value is representable on the wire when nothing of it is lost there: a number is
  in the range of the wire type of its field (the signed range for an enumeration
  backed by a signed type), a string is no longer than the declared length and has no
  zero byte.
\<close>

definition on_wire :: "field \<Rightarrow> uint64 \<Rightarrow> bool" where
  "on_wire f x =
     (if is_enum f \<and> is_signed (wire_type f)
      then - (2 ^ (8 * width (wire_type f) - 1)) \<le> sint x \<and>
           sint x < 2 ^ (8 * width (wire_type f) - 1)
      else unat x < 2 ^ (8 * width (wire_type f)))"

definition representable :: "field \<Rightarrow> val \<Rightarrow> bool" where
  "representable f v =
     (case v of
        Str s \<Rightarrow> length s \<le> array_length f \<and> 0 \<notin> set s
      | Num x \<Rightarrow> on_wire f x
      | Arr xs \<Rightarrow> list_all (on_wire f) xs)"

text \<open>
  A value is representable at a protocol version when every field that travels at that
  version is representable: at v1 the extension fields do not travel.
\<close>

definition wire_representable :: "schema \<Rightarrow> val list \<Rightarrow> bool \<Rightarrow> bool" where
  "wire_representable s vs isV2 =
     list_all2 (\<lambda>f v. (is_extension f \<and> \<not> isV2) \<or> representable f v) (declared s) vs"

text \<open>The value with its extension-tagged fields cleared to their zero values.\<close>

definition clear_extensions :: "schema \<Rightarrow> val list \<Rightarrow> val list" where
  "clear_extensions s vs =
     map (\<lambda>(f, v). if is_extension f then zero_value f else v) (zip (declared s) vs)"

text \<open>
  The round trip of a value at one protocol version: the encoder returns bytes and the
  decoder returns, from these bytes, the value itself (at v2) or the value with its
  extension fields cleared (at v1).
\<close>

definition round_trips :: "schema \<Rightarrow> val list \<Rightarrow> bool \<Rightarrow> bool" where
  "round_trips s vs isV2 =
     (case encode s vs isV2 of
        Inl e \<Rightarrow> False
      | Inr b \<Rightarrow> decode s b isV2 = Inr (if isV2 then vs else clear_extensions s vs))"

section \<open>Properties of the compact integer codecs\<close>

lemma ucast_drop_bit_digit:
  "(ucast (drop_bit (8 * i) (x::'a::len word)) :: byte) = of_nat (unat x div 256 ^ i mod 256)"
proof -
  have p: "(256::nat) ^ i = 2 ^ (8 * i)" by (simp add: power_mult)
  have "unat x div 256 ^ i mod 256 = take_bit 8 (drop_bit (8 * i) (unat x))"
    by (simp add: p take_bit_eq_mod drop_bit_eq_div)
  then show ?thesis
    by (simp add: bit_word_eqI bit_simps bit_unsigned_iff)
qed

lemma take_bit_split8:
  "take_bit (8 + n) (x::'a::len word) = ucast (ucast x :: byte) OR push_bit 8 (take_bit n (drop_bit 8 x))"
  by (rule bit_word_eqI) (auto simp add: bit_simps)

lemma le_decode_encode: "le_decode (le_encode n x) = take_bit (8 * n) (x::'a::len word)"
proof (induction n arbitrary: x)
  case 0 show ?case by simp
next
  case (Suc n)
  have "8 * Suc n = 8 + 8 * n" by simp
  then show ?case using Suc[of "drop_bit 8 x"] take_bit_split8[of "8 * n" x] by simp
qed

lemma length_le_encode: "length (le_encode n x) = n"
  by (induction n arbitrary: x) auto

lemma le_encode_take_bit:
  "8 * n \<le> m \<Longrightarrow> le_encode n (take_bit m x) = le_encode n (x::'a::len word)"
proof (induction n arbitrary: x m)
  case 0 show ?case by simp
next
  case (Suc n)
  have h: "(ucast (take_bit m x) :: byte) = ucast x" using Suc.prems
    by (intro bit_word_eqI) (auto simp add: bit_simps)
  have "8 * n \<le> m - 8" using Suc.prems by simp
  from Suc.IH[OF this] show ?case by (simp add: h drop_bit_take_bit)
qed

lemma le_encode_decode:
  "8 * length bs \<le> LENGTH('a) \<Longrightarrow> le_encode (length bs) (le_decode bs :: 'a::len word) = bs"
proof (induction bs)
  case Nil show ?case by simp
next
  case (Cons b bs)
  let ?y = "le_decode bs :: 'a word"
  have l8: "8 \<le> LENGTH('a)" using Cons.prems by simp
  have h1: "(ucast (ucast b OR push_bit 8 ?y) :: byte) = b" using l8
    by (intro bit_word_eqI) (auto simp add: bit_simps)
  have h2: "drop_bit 8 (ucast b OR push_bit 8 ?y) = take_bit (LENGTH('a) - 8) ?y" using l8
    by (intro bit_word_eqI) (auto simp add: bit_simps dest: bit_imp_le_length)
  have "8 * length bs \<le> LENGTH('a) - 8" using Cons.prems by simp
  then have "le_encode (length bs) (take_bit (LENGTH('a) - 8) ?y) = bs"
    using Cons by (simp add: le_encode_take_bit)
  then show ?case by (simp only: le_decode.simps le_encode.simps list.size h1 h2 add_Suc_right add_0_right)
qed

lemma uint24Encode_le: "uint24Encode x = le_encode 3 x"
  by (simp add: uint24Encode_def numeral_3_eq_3)

lemma uint48Encode_le: "uint48Encode x = le_encode 6 x"
  by (simp add: uint48Encode_def eval_nat_numeral)

lemma uint24Decode_le: "uint24Decode (a # b # c # r) = Some (le_decode [a, b, c])"
  by (simp add: uint24Decode_def push_bit_or or.commute or.left_commute)

lemma uint48Decode_le:
  "uint48Decode (a # b # c # d # e # f # r) = Some (le_decode [a, b, c, d, e, f])"
  by (simp add: uint48Decode_def push_bit_or or.commute or.left_commute)

lemma length3: "length xs = 3 \<Longrightarrow> \<exists>a b c. xs = [a, b, c]"
  by (cases xs; cases "tl xs"; cases "tl (tl xs)") auto

lemma length_ge3: "3 \<le> length xs \<Longrightarrow> \<exists>a b c r. xs = a # b # c # r"
  by (cases xs; cases "tl xs"; cases "tl (tl xs)") auto

lemma length_ge6: "6 \<le> length xs \<Longrightarrow> \<exists>a b c d e f r. xs = a # b # c # d # e # f # r"
proof -
  assume h: "6 \<le> length xs"
  then obtain a b c r where x: "xs = a # b # c # r" using length_ge3[of xs] by auto
  with h have "3 \<le> length r" by simp
  then obtain d e f r' where "r = d # e # f # r'" using length_ge3[of r] by auto
  with x show ?thesis by blast
qed

lemma uint24_dec_enc: "uint24Decode (uint24Encode x) = Some (take_bit 24 x)"
proof -
  obtain a b c where e: "le_encode 3 x = [a, b, c]"
    using length3[of "le_encode 3 x"] by (auto simp: length_le_encode)
  have "le_decode [a, b, c] = take_bit (8 * 3) x"
    using le_decode_encode[of 3 x] by (simp only: e)
  then show ?thesis by (simp add: uint24Encode_le e uint24Decode_le)
qed

lemma uint48_dec_enc: "uint48Decode (uint48Encode x) = Some (take_bit 48 x)"
proof -
  have "6 \<le> length (le_encode 6 x)" by (simp add: length_le_encode)
  then obtain a b c d e f r where e: "le_encode 6 x = a # b # c # d # e # f # r"
    using length_ge6 by blast
  then have "length (a # b # c # d # e # f # r) = 6" using length_le_encode[of 6 x] by simp
  then have r: "r = []" by simp
  have "le_decode [a, b, c, d, e, f] = take_bit (8 * 6) x"
    using le_decode_encode[of 6 x] by (simp only: e r)
  then show ?thesis by (simp add: uint48Encode_le e r uint48Decode_le)
qed

lemma uint24_enc_dec:
  "length b = 3 \<Longrightarrow> map_option uint24Encode (uint24Decode b) = Some b"
proof -
  assume "length b = 3"
  then obtain a1 a2 a3 where b: "b = [a1, a2, a3]" using length3 by blast
  have "le_encode (length [a1, a2, a3]) (le_decode [a1, a2, a3] :: uint32) = [a1, a2, a3]"
    by (rule le_encode_decode) simp
  then show ?thesis by (simp add: b uint24Decode_le uint24Encode_le numeral_3_eq_3 del: le_decode.simps le_encode.simps)
qed

lemma uint48_enc_dec:
  "length b = 6 \<Longrightarrow> map_option uint48Encode (uint48Decode b) = Some b"
proof -
  assume l: "length b = 6"
  then obtain a1 a2 a3 a4 a5 a6 r where b: "b = a1 # a2 # a3 # a4 # a5 # a6 # r"
    using length_ge6[of b] by auto
  with l have r: "r = []" by simp
  have "le_encode (length [a1, a2, a3, a4, a5, a6]) (le_decode [a1, a2, a3, a4, a5, a6] :: uint64)
        = [a1, a2, a3, a4, a5, a6]"
    by (rule le_encode_decode) simp
  then show ?thesis
    by (simp add: b r uint48Decode_le uint48Encode_le eval_nat_numeral del: le_decode.simps le_encode.simps)
qed

lemma take_bit_24_less: "take_bit 24 (x::uint32) < 2 ^ 24"
  using and_mask_less'[of 24 x] by (simp add: take_bit_eq_mask)

lemma take_bit_48_less: "take_bit 48 (x::uint64) < 2 ^ 48"
  using and_mask_less'[of 48 x] by (simp add: take_bit_eq_mask)

lemma less_take_bit_24: "(x::uint32) < 2 ^ 24 \<Longrightarrow> take_bit 24 x = x"
  using less_mask_eq[of x 24] by (simp add: take_bit_eq_mask)

lemma less_take_bit_48: "(x::uint64) < 2 ^ 48 \<Longrightarrow> take_bit 48 x = x"
  using less_mask_eq[of x 48] by (simp add: take_bit_eq_mask)

lemma uint24Decode_Some_iff: "(uint24Decode inp \<noteq> None) = (3 \<le> length inp)"
  by (auto simp: uint24Decode_def)

lemma uint48Decode_Some_iff: "(uint48Decode inp \<noteq> None) = (6 \<le> length inp)"
  by (auto simp: uint48Decode_def)

lemma uint24Decode_take: "3 \<le> length inp \<Longrightarrow> uint24Decode inp = uint24Decode (take 3 inp)"
  by (simp add: uint24Decode_def)

lemma uint48Decode_take: "6 \<le> length inp \<Longrightarrow> uint48Decode inp = uint48Decode (take 6 inp)"
  by (simp add: uint48Decode_def)

lemma uint24Decode_bound: "uint24Decode inp = Some v \<Longrightarrow> v < 2 ^ 24"
proof -
  assume h: "uint24Decode inp = Some v"
  have l: "3 \<le> length inp" using h uint24Decode_Some_iff[of inp] by simp
  have t: "uint24Decode (take 3 inp) = Some v" using h uint24Decode_take[OF l] by simp
  have "length (take 3 inp) = 3" using l by simp
  then have "map_option uint24Encode (uint24Decode (take 3 inp)) = Some (take 3 inp)"
    by (rule uint24_enc_dec)
  then have e: "uint24Encode v = take 3 inp" unfolding t by simp
  have "uint24Decode (uint24Encode v) = Some v" unfolding e by (rule t)
  then have "take_bit 24 v = v" unfolding uint24_dec_enc by simp
  then show ?thesis using take_bit_24_less[of v] by simp
qed

lemma uint48Decode_bound: "uint48Decode inp = Some v \<Longrightarrow> v < 2 ^ 48"
proof -
  assume h: "uint48Decode inp = Some v"
  have l: "6 \<le> length inp" using h uint48Decode_Some_iff[of inp] by simp
  have t: "uint48Decode (take 6 inp) = Some v" using h uint48Decode_take[OF l] by simp
  have "length (take 6 inp) = 6" using l by simp
  then have "map_option uint48Encode (uint48Decode (take 6 inp)) = Some (take 6 inp)"
    by (rule uint48_enc_dec)
  then have e: "uint48Encode v = take 6 inp" unfolding t by simp
  have "uint48Decode (uint48Encode v) = Some v" unfolding e by (rule t)
  then have "take_bit 48 v = v" unfolding uint48_dec_enc by simp
  then show ?thesis using take_bit_48_less[of v] by simp
qed

lemma uint24Encode_take_bit: "uint24Encode (take_bit 24 x) = uint24Encode x"
  using le_encode_take_bit[of 3 24 x] by (simp add: uint24Encode_le)

lemma uint48Encode_take_bit: "uint48Encode (take_bit 48 x) = uint48Encode x"
  using le_encode_take_bit[of 6 48 x] by (simp add: uint48Encode_le)

text \<open>
  Claim C7. For every 32-bit \<open>x\<close>, \<open>uint24Encode x\<close> is exactly the three low-order
  bytes of \<open>x\<close>, least significant first and most significant last; for every
  64-bit \<open>y\<close>, \<open>uint48Encode y\<close> is exactly the six low-order bytes of \<open>y\<close> in the
  same order.
\<close>

theorem uint_encode_low_bytes:
  "uint24Encode x = low_bytes_le 3 (unat x) \<and> uint48Encode y = low_bytes_le 6 (unat y)"
proof
  show "uint24Encode x = low_bytes_le 3 (unat x)"
    using ucast_drop_bit_digit[of 0 x] ucast_drop_bit_digit[of 1 x] ucast_drop_bit_digit[of 2 x]
    by (simp add: uint24Encode_def low_bytes_le_def upt_rec)
  show "uint48Encode y = low_bytes_le 6 (unat y)"
    using ucast_drop_bit_digit[of 0 y] ucast_drop_bit_digit[of 1 y] ucast_drop_bit_digit[of 2 y]
      ucast_drop_bit_digit[of 3 y] ucast_drop_bit_digit[of 4 y] ucast_drop_bit_digit[of 5 y]
    by (simp add: uint48Encode_def low_bytes_le_def upt_rec)
qed

text \<open>
  Claim C8. Both compact codecs round-trip in both directions: decoding the
  encoding of a value below \<open>2^24\<close> (respectively \<open>2^48\<close>) gives the value back,
  and encoding the decoding of a 3-byte (respectively 6-byte) sequence gives the
  sequence back.
\<close>

theorem uint_codecs_round_trip:
  "(x < 2 ^ 24 \<longrightarrow> uint24Decode (uint24Encode x) = Some x) \<and>
   (length b = 3 \<longrightarrow> map_option uint24Encode (uint24Decode b) = Some b) \<and>
   (y < 2 ^ 48 \<longrightarrow> uint48Decode (uint48Encode y) = Some y) \<and>
   (length c = 6 \<longrightarrow> map_option uint48Encode (uint48Decode c) = Some c)"
  by (simp add: uint24_dec_enc uint48_dec_enc less_take_bit_24 less_take_bit_48
      uint24_enc_dec uint48_enc_dec)

theorem uint_codecs_round_trip_witness:
  "(0x123456 :: uint32) < 2 ^ 24 \<and> uint24Decode (uint24Encode 0x123456) = Some 0x123456 \<and>
   length [0x56, 0x34, 0x12 :: byte] = 3 \<and>
   map_option uint24Encode (uint24Decode [0x56, 0x34, 0x12]) = Some [0x56, 0x34, 0x12] \<and>
   (0x123456789ABC :: uint64) < 2 ^ 48 \<and>
   uint48Decode (uint48Encode 0x123456789ABC) = Some 0x123456789ABC \<and>
   length [0xBC, 0x9A, 0x78, 0x56, 0x34, 0x12 :: byte] = 6 \<and>
   map_option uint48Encode (uint48Decode [0xBC, 0x9A, 0x78, 0x56, 0x34, 0x12])
     = Some [0xBC, 0x9A, 0x78, 0x56, 0x34, 0x12]"
  using uint_codecs_round_trip [of "0x123456" "[0x56, 0x34, 0x12]" "0x123456789ABC"
      "[0xBC, 0x9A, 0x78, 0x56, 0x34, 0x12]"]
  by simp

text \<open>
  Claim C9. \<open>uint24Decode\<close> returns a value on every input of at least 3 bytes and
  \<open>uint48Decode\<close> on every input of at least 6 bytes; they read only the first 3
  (respectively 6) bytes, so further bytes do not change the result. On a shorter
  input the index is out of range and the function panics.
\<close>

theorem uint_decode_defined:
  "(3 \<le> length inp \<longrightarrow>
      uint24Decode inp \<noteq> None \<and> uint24Decode inp = uint24Decode (take 3 inp)) \<and>
   (length s < 3 \<longrightarrow> uint24Decode s = None) \<and>
   (6 \<le> length inq \<longrightarrow>
      uint48Decode inq \<noteq> None \<and> uint48Decode inq = uint48Decode (take 6 inq)) \<and>
   (length t < 6 \<longrightarrow> uint48Decode t = None)"
proof -
  have a: "3 \<le> length inp \<longrightarrow>
      uint24Decode inp \<noteq> None \<and> uint24Decode inp = uint24Decode (take 3 inp)"
    using uint24Decode_Some_iff[of inp] uint24Decode_take[of inp] by blast
  have b: "length s < 3 \<longrightarrow> uint24Decode s = None"
    by (simp add: uint24Decode_def)
  have c: "6 \<le> length inq \<longrightarrow>
      uint48Decode inq \<noteq> None \<and> uint48Decode inq = uint48Decode (take 6 inq)"
    using uint48Decode_Some_iff[of inq] uint48Decode_take[of inq] by blast
  have d: "length t < 6 \<longrightarrow> uint48Decode t = None"
    by (simp add: uint48Decode_def)
  from a b c d show ?thesis by blast
qed

theorem uint_decode_defined_witness:
  "3 \<le> length [1, 2, 3, 4 :: byte] \<and> uint24Decode [1, 2, 3, 4] = Some 0x030201 \<and>
   uint24Decode [1, 2, 3, 4] = uint24Decode (take 3 [1, 2, 3, 4]) \<and>
   length [1, 2 :: byte] < 3 \<and> uint24Decode [1, 2] = None \<and>
   6 \<le> length [1, 2, 3, 4, 5, 6, 7 :: byte] \<and>
   uint48Decode [1, 2, 3, 4, 5, 6, 7] = Some 0x060504030201 \<and>
   uint48Decode [1, 2, 3, 4, 5, 6, 7] = uint48Decode (take 6 [1, 2, 3, 4, 5, 6, 7]) \<and>
   length [1, 2, 3, 4, 5 :: byte] < 6 \<and> uint48Decode [1, 2, 3, 4, 5] = None"
  using uint_decode_defined [of "[1, 2, 3, 4]" "[1, 2]" "[1, 2, 3, 4, 5, 6, 7]" "[1, 2, 3, 4, 5]"]
  by (simp add: uint24Decode_def uint48Decode_def)

text \<open>
  Claim C10. Whatever \<open>uint24Decode\<close> returns is below \<open>2^24\<close> and whatever
  \<open>uint48Decode\<close> returns is below \<open>2^48\<close>; the encoders discard the bits above
  the compact width: \<open>uint24Encode x = uint24Encode (x mod 2^24)\<close> and
  \<open>uint48Encode y = uint48Encode (y mod 2^48)\<close>.
\<close>

theorem uint_compact_width:
  "(uint24Decode inp = Some v \<longrightarrow> v < 2 ^ 24) \<and>
   (uint48Decode inq = Some w \<longrightarrow> w < 2 ^ 48) \<and>
   uint24Encode x = uint24Encode (x mod 2 ^ 24) \<and>
   uint48Encode y = uint48Encode (y mod 2 ^ 48)"
  using uint24Decode_bound[of inp v] uint48Decode_bound[of inq w]
    uint24Encode_take_bit[of x] uint48Encode_take_bit[of y]
  by (simp add: take_bit_eq_mod)

theorem uint_compact_width_witness:
  "uint24Decode [0xFF, 0xFF, 0xFF, 0xFF] = Some 0xFFFFFF \<and> (0xFFFFFF :: uint32) < 2 ^ 24 \<and>
   uint48Decode [0xFF, 0xFF, 0xFF, 0xFF, 0xFF, 0xFF, 0xFF] = Some 0xFFFFFFFFFFFF \<and>
   (0xFFFFFFFFFFFF :: uint64) < 2 ^ 48 \<and>
   uint24Encode 0x12345678 = uint24Encode (0x12345678 mod 2 ^ 24) \<and>
   uint48Encode 0x123456789ABCDEF0 = uint48Encode (0x123456789ABCDEF0 mod 2 ^ 48)"
  using uint_compact_width [of "[0xFF, 0xFF, 0xFF, 0xFF]" "0xFFFFFF"
      "[0xFF, 0xFF, 0xFF, 0xFF, 0xFF, 0xFF, 0xFF]" "0xFFFFFFFFFFFF" "0x12345678" "0x123456789ABCDEF0"]
  by (simp add: uint24Decode_def uint48Decode_def)

section \<open>Properties of the dialect message codec\<close>

subsection \<open>Evaluation on numerals\<close>

lemma le_encode_numeral:
  "le_encode (numeral k) x = ucast x # le_encode (pred_numeral k) (drop_bit 8 x)"
  by (simp add: numeral_eq_Suc)

lemma replicate_numeral: "replicate (numeral k) x = x # replicate (pred_numeral k) x"
  by (simp add: numeral_eq_Suc)

lemma list_update_Cons_numeral: "(x # xs)[numeral k := y] = x # xs[pred_numeral k := y]"
  by (simp add: numeral_eq_Suc)

lemma dec_elems_numeral:
  "dec_elems f (numeral k) bs =
     (case dec_scalar f (take (width (wire_type f)) bs) of
        Inl e \<Rightarrow> Inl e
      | Inr x \<Rightarrow> (case dec_elems f (pred_numeral k) (drop (width (wire_type f)) bs) of
                    Inl e \<Rightarrow> Inl e
                  | Inr xs \<Rightarrow> Inr (x # xs)))"
  by (simp add: numeral_eq_Suc)

lemmas build_defs = newDialectMessage_def plain_def derive_field_def wire_fields_def
  sort_fields_def payload_size_def field_size_def
lemmas enc_defs = testMessageEncode_def encode_def enc_field_def supported_def enc_scalar_def
  enc_string_def truncate_zeros_def uint24Encode_def uint48Encode_def le_encode_numeral
  replicate_numeral
lemmas dec_defs = testMessageDecode_def decode_def dec_field_def dec_scalar_def supported_def
  zero_value_def uint24Decode_def uint48Decode_def dec_elems_numeral replicate_numeral
  list_update_Cons_numeral

subsection \<open>The schema builder\<close>

lemma derive_field_index: "derive_field i d = Inr f \<Longrightarrow> index f = i"
  by (auto simp: derive_field_def split: option.splits if_splits)

lemma derive_fields_index:
  "derive_fields i ds = Inr fs \<Longrightarrow> map index fs = [i..<i + length ds]"
proof (induction ds arbitrary: i fs)
  case Nil
  then show ?case by simp
next
  case (Cons d ds)
  from Cons.prems obtain f fs' where f: "derive_field i d = Inr f"
    and r: "derive_fields (Suc i) ds = Inr fs'" and fs: "fs = f # fs'"
    by (auto split: sum.splits)
  from Cons.IH[OF r] have t: "map index fs' = [Suc i..<Suc i + length ds]" .
  have "i < i + length (d # ds)" by simp
  then have "[i..<i + length (d # ds)] = i # [Suc i..<i + length (d # ds)]"
    by (rule upt_conv_Cons)
  then show ?case using derive_field_index[OF f] t by (simp add: fs del: upt_Suc)
qed

lemma index_positions:
  assumes "map index fs = [0..<n]"
  shows "length fs = n" and "k < n \<Longrightarrow> index (fs ! k) = k"
proof -
  show l: "length fs = n" using assms by (metis length_map length_upt minus_nat.diff_0)
  show "k < n \<Longrightarrow> index (fs ! k) = k"
  proof -
    assume k: "k < n"
    then have "map index fs ! k = index (fs ! k)" using l by simp
    then show ?thesis using assms k by simp
  qed
qed

lemma index_member:
  assumes "map index fs = [0..<n]" "f \<in> set fs"
  shows "index f < n \<and> fs ! index f = f"
proof -
  from assms(2) obtain k where k: "k < length fs" "fs ! k = f" by (auto simp: in_set_conv_nth)
  with index_positions[OF assms(1)] show ?thesis by auto
qed

lemma newDialectMessage_Inr:
  assumes "newDialectMessage m = Inr s"
  shows "derive_fields 0 (md_fields m) = Inr (declared s) \<and> extensions_last (declared s) \<and>
         wfields s = wire_fields (declared s) \<and>
         size_normal s = payload_size (filter (\<lambda>f. \<not> is_extension f) (declared s)) \<and>
         size_extended s = payload_size (declared s)"
  using assms by (auto simp: newDialectMessage_def split: sum.splits if_splits)

lemma schema_index:
  assumes "newDialectMessage m = Inr s"
  shows "map index (declared s) = [0..<length (declared s)]"
proof -
  from newDialectMessage_Inr[OF assms]
  have d: "derive_fields 0 (md_fields m) = Inr (declared s)" by simp
  from derive_fields_index[OF d] have e: "map index (declared s) = [0..<length (md_fields m)]"
    by simp
  then have "length (declared s) = length (md_fields m)"
    by (metis length_map length_upt minus_nat.diff_0)
  with e show ?thesis by simp
qed

lemma set_wire_fields: "set (wire_fields fs) = set fs"
  by (auto simp: wire_fields_def sort_fields_def)

lemma nonext_wire_fields:
  "filter (\<lambda>f. \<not> is_extension f) (wire_fields fs) = sort_fields (filter (\<lambda>f. \<not> is_extension f) fs)"
  by (simp add: wire_fields_def sort_fields_def filter_sort)

lemma sum_insort_key:
  "sum_list (map g (insort_key k x xs)) = (g x :: nat) + sum_list (map g xs)"
  by (induction xs) auto

lemma sum_sort_key: "sum_list (map g (sort_key k xs)) = (sum_list (map g xs) :: nat)"
  by (induction xs) (auto simp: sum_insort_key)

lemma payload_size_sort: "payload_size (sort_fields fs) = payload_size fs"
  by (simp add: payload_size_def sort_fields_def sum_sort_key)

lemma payload_size_append: "payload_size (a @ b) = payload_size a + payload_size b"
  by (simp add: payload_size_def)

lemma payload_size_partition:
  "payload_size (filter (\<lambda>f. \<not> is_extension f) fs) + payload_size (filter is_extension fs)
     = payload_size fs"
  by (induction fs) (auto simp: payload_size_def)

lemma payload_size_wire_fields: "payload_size (wire_fields fs) = payload_size fs"
  by (simp add: wire_fields_def payload_size_append payload_size_sort payload_size_partition)

lemma field_size_pos: "0 < field_size f"
  by (cases "wire_type f") (auto simp: field_size_def)

lemma payload_size_pos: "fs \<noteq> [] \<Longrightarrow> 0 < payload_size fs"
  using field_size_pos by (cases fs) (auto simp: payload_size_def)

subsection \<open>Encoding\<close>

lemma length_enc_scalar: "length (enc_scalar t x) = width t"
  by (simp add: enc_scalar_def uint24Encode_def uint48Encode_def length_le_encode)

lemma length_concat_fixed:
  "(\<And>x. length (g x) = w) \<Longrightarrow> length (concat (map g xs)) = length xs * w"
  by (induction xs) auto

lemma length_enc_string: "length (enc_string n s) = n"
  by (simp add: enc_string_def)

lemma enc_field_length:
  assumes "enc_field f v = Inr bs"
  shows "length bs = field_size f"
proof (cases v)
  case (Num x)
  with assms show ?thesis
    by (auto simp: enc_field_def field_size_def length_enc_scalar split: if_splits)
next
  case (Str s)
  with assms have "supported f" "wire_type f = Char" "bs = enc_string (array_length f) s"
    by (auto simp: enc_field_def split: if_splits)
  then show ?thesis by (auto simp: supported_def field_size_def length_enc_string)
next
  case (Arr xs)
  with assms have a: "0 < array_length f" "length xs = array_length f"
    "bs = concat (map (enc_scalar (wire_type f)) xs)"
    by (auto simp: enc_field_def split: if_splits)
  have "length bs = length xs * width (wire_type f)"
    unfolding a(3) by (rule length_concat_fixed) (rule length_enc_scalar)
  with a show ?thesis by (simp add: field_size_def)
qed

lemma enc_fields_append:
  "enc_fields (a @ b) vs =
     (case enc_fields a vs of
        Inl e \<Rightarrow> Inl e
      | Inr x \<Rightarrow> (case enc_fields b vs of Inl e \<Rightarrow> Inl e | Inr y \<Rightarrow> Inr (x @ y)))"
  by (induction a) (auto split: sum.splits)

lemma enc_fields_length: "enc_fields fs vs = Inr buf \<Longrightarrow> length buf = payload_size fs"
proof (induction fs arbitrary: buf)
  case Nil
  then show ?case by (simp add: payload_size_def)
next
  case (Cons f fs)
  from Cons.prems obtain bs r where b: "enc_field f (vs ! index f) = Inr bs"
    and r: "enc_fields fs vs = Inr r" and buf: "buf = bs @ r"
    by (auto split: if_splits sum.splits)
  from Cons.IH[OF r] enc_field_length[OF b] show ?case
    by (simp add: buf payload_size_def)
qed

lemma enc_field_conforms: "conforms f v \<Longrightarrow> \<exists>bs. enc_field f v = Inr bs"
  by (cases v) (auto simp: conforms_def enc_field_def)

lemma enc_fields_total:
  "(\<And>f. f \<in> set fs \<Longrightarrow> index f < length vs \<and> conforms f (vs ! index f)) \<Longrightarrow>
   \<exists>buf. enc_fields fs vs = Inr buf"
proof (induction fs)
  case Nil
  then show ?case by simp
next
  case (Cons f fs)
  have "index f < length vs" "conforms f (vs ! index f)" using Cons.prems[of f] by auto
  moreover obtain bs where "enc_field f (vs ! index f) = Inr bs"
    using enc_field_conforms[OF \<open>conforms f (vs ! index f)\<close>] by blast
  moreover obtain r where "enc_fields fs vs = Inr r" using Cons by auto
  ultimately show ?case by simp
qed

lemma well_typed_field:
  assumes "newDialectMessage m = Inr s" "well_typed s vs" "f \<in> set (declared s)"
  shows "index f < length vs \<and> declared s ! index f = f \<and> conforms f (vs ! index f)"
proof -
  from assms(2) have a: "list_all2 conforms (declared s) vs" by (simp add: well_typed_def)
  then have l: "length (declared s) = length vs" by (rule list_all2_lengthD)
  from index_member[OF schema_index[OF assms(1)] assms(3)]
  have i: "index f < length (declared s)" "declared s ! index f = f" by auto
  from list_all2_nthD[OF a i(1)] i l show ?thesis by simp
qed

lemma well_typed_wire:
  assumes "newDialectMessage m = Inr s" "well_typed s vs" "f \<in> set (wfields s)"
  shows "index f < length vs \<and> conforms f (vs ! index f)"
proof -
  have "wfields s = wire_fields (declared s)" using newDialectMessage_Inr[OF assms(1)] by simp
  then have "f \<in> set (declared s)" using assms(3) by (simp add: set_wire_fields)
  from well_typed_field[OF assms(1,2) this] show ?thesis by simp
qed

lemma encode_buffer:
  assumes "newDialectMessage m = Inr s" "well_typed s vs"
  shows "\<exists>n e. enc_fields (filter (\<lambda>f. \<not> is_extension f) (wfields s)) vs = Inr n \<and>
               enc_fields (filter is_extension (declared s)) vs = Inr e \<and>
               enc_fields (wfields s) vs = Inr (n @ e) \<and>
               length n = size_normal s \<and> length (n @ e) = size_extended s"
proof -
  let ?ne = "filter (\<lambda>f. \<not> is_extension f) (wfields s)"
  let ?ex = "filter is_extension (declared s)"
  from newDialectMessage_Inr[OF assms(1)]
  have w: "wfields s = wire_fields (declared s)"
    and sn: "size_normal s = payload_size (filter (\<lambda>f. \<not> is_extension f) (declared s))"
    and se: "size_extended s = payload_size (declared s)" by auto
  have split: "wfields s = ?ne @ ?ex"
    by (simp add: w nonext_wire_fields) (simp add: wire_fields_def)
  obtain buf where buf: "enc_fields (wfields s) vs = Inr buf"
    using enc_fields_total[of "wfields s" vs] well_typed_wire[OF assms] by blast
  then have "enc_fields (?ne @ ?ex) vs = Inr buf" using split by simp
  then obtain n e where n: "enc_fields ?ne vs = Inr n" and e: "enc_fields ?ex vs = Inr e"
    and b: "buf = n @ e"
    by (auto simp: enc_fields_append split: sum.splits)
  have "length n = payload_size ?ne" using enc_fields_length[OF n] .
  then have ln: "length n = size_normal s" by (simp add: w nonext_wire_fields payload_size_sort sn)
  have "length buf = payload_size (wfields s)" using enc_fields_length[OF buf] .
  then have "length (n @ e) = size_extended s" by (simp add: b w payload_size_wire_fields se)
  with n e buf b ln show ?thesis by blast
qed

subsection \<open>Trailing-zero truncation\<close>

lemma strip_zeros_replicate: "\<exists>k. xs = replicate k 0 @ strip_zeros xs"
proof (induction xs rule: strip_zeros.induct)
  case (1 x y ys)
  show ?case
  proof (cases "x = 0")
    case True
    with 1 obtain k where "y # ys = replicate k 0 @ strip_zeros (y # ys)" by auto
    then have "x # y # ys = replicate (Suc k) 0 @ strip_zeros (x # y # ys)"
      using True by simp
    then show ?thesis by blast
  next
    case False
    then have "x # y # ys = replicate 0 0 @ strip_zeros (x # y # ys)" by simp
    then show ?thesis by blast
  qed
next
  case (2 v)
  have "[v] = replicate 0 0 @ strip_zeros [v]" by simp
  then show ?case by blast
next
  case 3
  have "[] = replicate 0 0 @ strip_zeros []" by simp
  then show ?case by blast
qed

lemma strip_zeros_nonempty: "xs \<noteq> [] \<Longrightarrow> strip_zeros xs \<noteq> []"
  by (induction xs rule: strip_zeros.induct) auto

lemma strip_zeros_hd: "1 < length (strip_zeros xs) \<Longrightarrow> hd (strip_zeros xs) \<noteq> 0"
  by (induction xs rule: strip_zeros.induct) auto

lemma truncate_zeros_pad: "\<exists>k. buf = truncate_zeros buf @ replicate k 0"
proof -
  obtain k where "rev buf = replicate k 0 @ strip_zeros (rev buf)"
    using strip_zeros_replicate by blast
  then have "rev (rev buf) = rev (replicate k 0 @ strip_zeros (rev buf))" by simp
  then have "buf = truncate_zeros buf @ replicate k 0" by (simp add: truncate_zeros_def)
  then show ?thesis by blast
qed

lemma truncate_zeros_nonempty: "buf \<noteq> [] \<Longrightarrow> truncate_zeros buf \<noteq> []"
  by (simp add: truncate_zeros_def strip_zeros_nonempty)

lemma truncate_zeros_last: "1 < length (truncate_zeros buf) \<Longrightarrow> last (truncate_zeros buf) \<noteq> 0"
  using strip_zeros_hd[of "rev buf"]
  by (simp add: truncate_zeros_def last_rev)

lemma truncate_zeros_restore:
  "truncate_zeros buf @ replicate (length buf - length (truncate_zeros buf)) 0 = buf"
proof -
  obtain k where k: "buf = truncate_zeros buf @ replicate k 0" using truncate_zeros_pad by blast
  then have "length buf = length (truncate_zeros buf) + k"
    by (metis length_append length_replicate)
  then have "length buf - length (truncate_zeros buf) = k" by simp
  with k show ?thesis by simp
qed

subsection \<open>Decoding what was encoded\<close>

lemma unat_less_take_bit: "unat (x::uint64) < 2 ^ n \<Longrightarrow> take_bit n x = x"
  by (simp add: word_unat_eq_iff unsigned_take_bit_eq take_bit_nat_eq_self)

lemma sint_range_signed_take_bit:
  assumes "- (2 ^ n) \<le> sint (x::uint64)" "sint x < 2 ^ n"
  shows "signed_take_bit n x = x"
proof (rule bit_word_eqI)
  fix i
  assume i: "i < LENGTH(64)"
  have e: "signed_take_bit n (sint x) = sint x"
    using assms by (rule signed_take_bit_int_eq_self)
  have "bit (sint x) (min n i) = bit (signed_take_bit n (sint x)) i"
    by (simp add: bit_signed_take_bit_iff)
  then have b: "bit (sint x) (min n i) = bit (sint x) i" by (simp only: e)
  have "min n i < 64" using i by simp
  then have "bit (sint x) (min n i) = bit x (min n i)" by (auto simp add: bit_sint_iff)
  moreover have "bit (sint x) i = bit x i" using i by (simp add: bit_sint_iff)
  ultimately have "bit x (min n i) = bit x i" using b by simp
  then show "bit (signed_take_bit n x) i = bit x i" using i by (simp add: bit_signed_take_bit_iff)
qed

lemma ucast_take_bit_ucast:
  "(ucast (take_bit 24 (ucast (x::uint64) :: uint32)) :: uint64) = take_bit 24 x"
  by (rule bit_word_eqI) (auto simp add: bit_simps)

lemma dec_enc_scalar:
  assumes "on_wire f x"
  shows "dec_scalar f (enc_scalar (wire_type f) x) = Inr x"
proof -
  let ?t = "wire_type f"
  consider (u24) "?t = U24" | (u48) "?t = U48" | (other) "?t \<noteq> U24" "?t \<noteq> U48" by blast
  then show ?thesis
  proof cases
    case u24
    with assms have "unat x < 2 ^ 24" by (simp add: on_wire_def)
    then have "take_bit 24 x = x" by (rule unat_less_take_bit)
    then show ?thesis
      by (simp add: u24 dec_scalar_def enc_scalar_def uint24_dec_enc ucast_take_bit_ucast)
  next
    case u48
    with assms have "unat x < 2 ^ 48" by (simp add: on_wire_def)
    then have "take_bit 48 x = x" by (rule unat_less_take_bit)
    then show ?thesis
      by (simp add: u48 dec_scalar_def enc_scalar_def uint48_dec_enc)
  next
    case other
    have raw: "le_decode (le_encode (width ?t) x) = take_bit (8 * width ?t) x"
      by (rule le_decode_encode)
    show ?thesis
    proof (cases "is_enum f \<and> is_signed ?t")
      case True
      with assms have r: "- (2 ^ (8 * width ?t - 1)) \<le> sint x" "sint x < 2 ^ (8 * width ?t - 1)"
        by (auto simp: on_wire_def)
      have "0 < width ?t" by (cases ?t) auto
      then have "\<not> 8 * width ?t \<le> 8 * width ?t - 1" by simp
      then have "signed_take_bit (8 * width ?t - 1) (take_bit (8 * width ?t) x)
                 = signed_take_bit (8 * width ?t - 1) x"
        by (simp add: signed_take_bit_take_bit)
      also have "\<dots> = x" using r by (rule sint_range_signed_take_bit)
      finally show ?thesis using True other
        by (simp add: dec_scalar_def enc_scalar_def raw)
    next
      case False
      with assms have "unat x < 2 ^ (8 * width ?t)" by (auto simp: on_wire_def)
      then have "take_bit (8 * width ?t) x = x" by (rule unat_less_take_bit)
      then show ?thesis using False other
        by (auto simp add: dec_scalar_def enc_scalar_def raw)
    qed
  qed
qed

lemma dec_elems_enc:
  "list_all (on_wire f) xs \<Longrightarrow>
   dec_elems f (length xs) (concat (map (enc_scalar (wire_type f)) xs)) = Inr xs"
proof (induction xs)
  case Nil
  then show ?case by simp
next
  case (Cons x xs)
  then have x: "on_wire f x" and r: "dec_elems f (length xs) (concat (map (enc_scalar (wire_type f)) xs)) = Inr xs"
    by auto
  show ?case by (simp add: length_enc_scalar dec_enc_scalar[OF x] r)
qed

lemma takeWhile_enc_string:
  assumes "length s \<le> n" "0 \<notin> set s"
  shows "takeWhile (\<lambda>b. b \<noteq> 0) (enc_string n s) = s"
proof -
  have "takeWhile (\<lambda>b. b \<noteq> 0) (s @ replicate (n - length s) 0) = s"
  proof (cases "n - length s")
    case 0
    then show ?thesis using assms(2) by (simp add: takeWhile_eq_all_conv) metis
  next
    case (Suc k)
    then show ?thesis using assms(2) by (simp add: takeWhile_append2 takeWhile_tail) metis
  qed
  then show ?thesis using assms(1) by (simp add: enc_string_def)
qed

lemma dec_enc_field:
  assumes "enc_field f v = Inr bs" "representable f v"
  shows "dec_field f bs = Inr v"
proof (cases v)
  case (Num x)
  with assms show ?thesis
    by (auto simp: enc_field_def dec_field_def representable_def dec_enc_scalar split: if_splits)
next
  case (Str s)
  with assms show ?thesis
    by (auto simp: enc_field_def dec_field_def representable_def takeWhile_enc_string
        split: if_splits)
next
  case (Arr xs)
  with assms have a: "supported f" "wire_type f \<noteq> Char" "0 < array_length f"
    "length xs = array_length f" "bs = concat (map (enc_scalar (wire_type f)) xs)"
    "list_all (on_wire f) xs"
    by (auto simp: enc_field_def representable_def split: if_splits)
  from dec_elems_enc[OF a(6)] a show ?thesis by (simp add: dec_field_def Arr)
qed

lemma dec_fields_enc:
  assumes "enc_fields fs vs = Inr buf"
    and "\<And>f. f \<in> set fs \<Longrightarrow> representable f (vs ! index f)"
    and "length acc = length vs"
  shows "\<exists>acc'. dec_fields fs (buf @ rest) acc = Inr acc' \<and> length acc' = length vs \<and>
           (\<forall>i<length vs. acc' ! i = (if i \<in> index ` set fs then vs ! i else acc ! i))"
  using assms
proof (induction fs arbitrary: buf acc)
  case Nil
  then show ?case by simp
next
  case (Cons f fs)
  from Cons.prems(1) obtain bs r where i: "index f < length vs"
    and b: "enc_field f (vs ! index f) = Inr bs"
    and r: "enc_fields fs vs = Inr r" and buf: "buf = bs @ r"
    by (auto split: if_splits sum.splits)
  have l: "length bs = field_size f" using enc_field_length[OF b] .
  have d: "dec_field f bs = Inr (vs ! index f)"
    using dec_enc_field[OF b] Cons.prems(2)[of f] by simp
  let ?acc = "acc[index f := vs ! index f]"
  have "length ?acc = length vs" using Cons.prems(3) by simp
  from Cons.IH[OF r _ this] Cons.prems(2)
  obtain acc' where a: "dec_fields fs (r @ rest) ?acc = Inr acc'" "length acc' = length vs"
    "\<forall>i<length vs. acc' ! i = (if i \<in> index ` set fs then vs ! i else ?acc ! i)"
    by auto
  have step: "dec_fields (f # fs) (buf @ rest) acc = Inr acc'"
    using i l d a(1) Cons.prems(3) by (simp add: buf)
  have "\<forall>i<length vs. acc' ! i = (if i \<in> index ` set (f # fs) then vs ! i else acc ! i)"
  proof (intro allI impI)
    fix k assume k: "k < length vs"
    show "acc' ! k = (if k \<in> index ` set (f # fs) then vs ! k else acc ! k)"
    proof (cases "k \<in> index ` set fs")
      case True
      then show ?thesis using a(3) k by simp
    next
      case False
      then have "acc' ! k = ?acc ! k" using a(3) k by simp
      then show ?thesis using False k Cons.prems(3) by (cases "k = index f") auto
    qed
  qed
  with step a(2) show ?case by blast
qed

lemma dec_fields_untouched:
  "dec_fields fs buf acc = Inr acc' \<Longrightarrow>
   length acc' = length acc \<and> (\<forall>i. i \<notin> index ` set fs \<longrightarrow> acc' ! i = acc ! i)"
proof (induction fs arbitrary: buf acc)
  case Nil
  then show ?case by simp
next
  case (Cons f fs)
  from Cons.prems obtain v where
    r: "dec_fields fs (drop (field_size f) buf) (acc[index f := v]) = Inr acc'"
    by (auto split: if_splits sum.splits)
  from Cons.IH[OF r] show ?case by auto
qed

subsection \<open>The protocol versions\<close>

text \<open>
  Claim C5. Encoding the MessageHeartbeat value {Type=1, Autopilot=2, BaseMode=3,
  CustomMode=6, SystemStatus=4, MavlinkVersion=5} at v1 yields exactly the bytes
  06 00 00 00 01 02 03 04 05, the 4-byte CustomMode field coming before all 1-byte
  fields on the wire, and decoding those bytes at v1 returns that value.
\<close>

theorem heartbeat_v1_vector:
  "testMessageEncode MessageHeartbeat False [Num 1, Num 2, Num 3, Num 6, Num 4, Num 5]
     = Inr [0x06, 0x00, 0x00, 0x00, 0x01, 0x02, 0x03, 0x04, 0x05] \<and>
   testMessageDecode MessageHeartbeat False [0x06, 0x00, 0x00, 0x00, 0x01, 0x02, 0x03, 0x04, 0x05]
     = Inr [Num 1, Num 2, Num 3, Num 6, Num 4, Num 5] \<and>
   map_sum id (\<lambda>mp. map (\<lambda>f. (logical_name f, width (wire_type f))) (wfields mp))
       (newDialectMessage MessageHeartbeat)
     = Inr [(''CustomMode'', 4), (''Type'', 1), (''Autopilot'', 1), (''BaseMode'', 1),
            (''SystemStatus'', 1), (''MavlinkVersion'', 1)]"
proof (intro conjI)
  show "testMessageEncode MessageHeartbeat False [Num 1, Num 2, Num 3, Num 6, Num 4, Num 5]
     = Inr [0x06, 0x00, 0x00, 0x00, 0x01, 0x02, 0x03, 0x04, 0x05]"
    by (simp add: MessageHeartbeat_def build_defs enc_defs)
  show "testMessageDecode MessageHeartbeat False [0x06, 0x00, 0x00, 0x00, 0x01, 0x02, 0x03, 0x04, 0x05]
     = Inr [Num 1, Num 2, Num 3, Num 6, Num 4, Num 5]"
    by (simp add: MessageHeartbeat_def build_defs dec_defs)
  show "map_sum id (\<lambda>mp. map (\<lambda>f. (logical_name f, width (wire_type f))) (wfields mp))
       (newDialectMessage MessageHeartbeat)
     = Inr [(''CustomMode'', 4), (''Type'', 1), (''Autopilot'', 1), (''BaseMode'', 1),
            (''SystemStatus'', 1), (''MavlinkVersion'', 1)]"
    by (simp add: MessageHeartbeat_def build_defs)
qed

lemma encode_v1:
  assumes "newDialectMessage m = Inr s" "well_typed s vs"
  shows "\<exists>b. encode s vs False = Inr b \<and> length b = size_normal s \<and>
             enc_fields (filter (\<lambda>f. \<not> is_extension f) (wfields s)) vs = Inr b"
proof -
  from encode_buffer[OF assms] obtain n e where
    n: "enc_fields (filter (\<lambda>f. \<not> is_extension f) (wfields s)) vs = Inr n"
    and b: "enc_fields (wfields s) vs = Inr (n @ e)" and l: "length n = size_normal s"
    by blast
  have "encode s vs False = Inr n" using b l by (simp add: encode_def)
  with n l show ?thesis by blast
qed

lemma nonext_index:
  assumes "newDialectMessage m = Inr s" "i < length (declared s)"
  shows "(i \<in> index ` set (filter (\<lambda>f. \<not> is_extension f) (wfields s)))
         = (\<not> is_extension (declared s ! i))"
proof -
  have w: "set (wfields s) = set (declared s)"
    using newDialectMessage_Inr[OF assms(1)] by (simp add: set_wire_fields)
  note ix = schema_index[OF assms(1)]
  show ?thesis
  proof
    assume "i \<in> index ` set (filter (\<lambda>f. \<not> is_extension f) (wfields s))"
    then obtain f where f: "f \<in> set (declared s)" "\<not> is_extension f" "i = index f"
      using w by auto
    from index_member[OF ix f(1)] f show "\<not> is_extension (declared s ! i)" by simp
  next
    assume n: "\<not> is_extension (declared s ! i)"
    have "declared s ! i \<in> set (declared s)" using assms(2) by simp
    moreover have "index (declared s ! i) = i" using index_positions(2)[OF ix assms(2)] .
    ultimately show "i \<in> index ` set (filter (\<lambda>f. \<not> is_extension f) (wfields s))"
      using n w by force
  qed
qed

lemma decode_v1_extensions:
  assumes "newDialectMessage m = Inr s" "decode s b False = Inr vs'"
  shows "length vs' = length (declared s) \<and>
         (\<forall>i<length (declared s). is_extension (declared s ! i) \<longrightarrow>
              vs' ! i = zero_value (declared s ! i))"
proof -
  let ?ne = "filter (\<lambda>f. \<not> is_extension f) (wfields s)"
  from assms(2) obtain buf where
    d: "dec_fields ?ne buf (map zero_value (declared s)) = Inr vs'"
    by (auto simp: decode_def Let_def split: if_splits)
  from dec_fields_untouched[OF d]
  have l: "length vs' = length (declared s)"
    and u: "\<And>i. i \<notin> index ` set ?ne \<Longrightarrow> vs' ! i = map zero_value (declared s) ! i"
    by auto
  have "vs' ! i = zero_value (declared s ! i)"
    if "i < length (declared s)" "is_extension (declared s ! i)" for i
    using u[of i] nonext_index[OF assms(1) that(1)] that by simp
  with l show ?thesis by blast
qed

text \<open>
  Claim C4. For every schema, encoding a well-typed value at v1 produces exactly the
  non-extension payload size, the encoding of the non-extension fields alone, and
  decoding at v1 leaves the extension fields of the output value at their zero values.
  MessageOpticalFlow at v1 yields the 26-byte vector without FlowRateX and FlowRateY,
  while at v2 the same value appends the two float encodings of 1.0.
\<close>

theorem v1_omits_extensions:
  assumes "newDialectMessage m = Inr s" and "well_typed s vs"
  shows "(\<exists>b. encode s vs False = Inr b \<and> length b = size_normal s \<and>
              enc_fields (filter (\<lambda>f. \<not> is_extension f) (wfields s)) vs = Inr b) \<and>
         (\<forall>b vs'. decode s b False = Inr vs' \<longrightarrow>
              length vs' = length (declared s) \<and>
              (\<forall>i<length (declared s). is_extension (declared s ! i) \<longrightarrow>
                   vs' ! i = zero_value (declared s ! i))) \<and>
         testMessageEncode MessageOpticalFlow False
             [Num 3, Num 9, Num 7, Num 8, Num 0x3F800000, Num 0x3F800000, Num 10, Num 0x3F800000,
              Num 0x3F800000, Num 0x3F800000]
           = Inr [0x03, 0, 0, 0, 0, 0, 0, 0, 0, 0, 0x80, 0x3F, 0, 0, 0x80, 0x3F, 0, 0, 0x80, 0x3F,
                  0x07, 0, 0x08, 0, 0x09, 0x0A] \<and>
         testMessageEncode MessageOpticalFlow True
             [Num 3, Num 9, Num 7, Num 8, Num 0x3F800000, Num 0x3F800000, Num 10, Num 0x3F800000,
              Num 0x3F800000, Num 0x3F800000]
           = Inr [0x03, 0, 0, 0, 0, 0, 0, 0, 0, 0, 0x80, 0x3F, 0, 0, 0x80, 0x3F, 0, 0, 0x80, 0x3F,
                  0x07, 0, 0x08, 0, 0x09, 0x0A, 0, 0, 0x80, 0x3F, 0, 0, 0x80, 0x3F] \<and>
         testMessageDecode MessageOpticalFlow False
             [0x03, 0, 0, 0, 0, 0, 0, 0, 0, 0, 0x80, 0x3F, 0, 0, 0x80, 0x3F, 0, 0, 0x80, 0x3F,
              0x07, 0, 0x08, 0, 0x09, 0x0A]
           = Inr [Num 3, Num 9, Num 7, Num 8, Num 0x3F800000, Num 0x3F800000, Num 10,
                  Num 0x3F800000, Num 0, Num 0]"
proof (intro conjI)
  show "\<exists>b. encode s vs False = Inr b \<and> length b = size_normal s \<and>
              enc_fields (filter (\<lambda>f. \<not> is_extension f) (wfields s)) vs = Inr b"
    using assms by (rule encode_v1)
  show "\<forall>b vs'. decode s b False = Inr vs' \<longrightarrow>
              length vs' = length (declared s) \<and>
              (\<forall>i<length (declared s). is_extension (declared s ! i) \<longrightarrow>
                   vs' ! i = zero_value (declared s ! i))"
    using decode_v1_extensions[OF assms(1)] by blast
  show "testMessageEncode MessageOpticalFlow False
             [Num 3, Num 9, Num 7, Num 8, Num 0x3F800000, Num 0x3F800000, Num 10, Num 0x3F800000,
              Num 0x3F800000, Num 0x3F800000]
           = Inr [0x03, 0, 0, 0, 0, 0, 0, 0, 0, 0, 0x80, 0x3F, 0, 0, 0x80, 0x3F, 0, 0, 0x80, 0x3F,
                  0x07, 0, 0x08, 0, 0x09, 0x0A]"
    by (simp add: MessageOpticalFlow_def build_defs enc_defs)
  show "testMessageEncode MessageOpticalFlow True
             [Num 3, Num 9, Num 7, Num 8, Num 0x3F800000, Num 0x3F800000, Num 10, Num 0x3F800000,
              Num 0x3F800000, Num 0x3F800000]
           = Inr [0x03, 0, 0, 0, 0, 0, 0, 0, 0, 0, 0x80, 0x3F, 0, 0, 0x80, 0x3F, 0, 0, 0x80, 0x3F,
                  0x07, 0, 0x08, 0, 0x09, 0x0A, 0, 0, 0x80, 0x3F, 0, 0, 0x80, 0x3F]"
    by (simp add: MessageOpticalFlow_def build_defs enc_defs)
  show "testMessageDecode MessageOpticalFlow False
             [0x03, 0, 0, 0, 0, 0, 0, 0, 0, 0, 0x80, 0x3F, 0, 0, 0x80, 0x3F, 0, 0, 0x80, 0x3F,
              0x07, 0, 0x08, 0, 0x09, 0x0A]
           = Inr [Num 3, Num 9, Num 7, Num 8, Num 0x3F800000, Num 0x3F800000, Num 10,
                  Num 0x3F800000, Num 0, Num 0]"
    by (simp add: MessageOpticalFlow_def build_defs dec_defs)
qed

theorem v1_omits_extensions_witness:
  "\<exists>s. newDialectMessage MessageOpticalFlow = Inr s \<and>
       well_typed s [Num 3, Num 9, Num 7, Num 8, Num 0x3F800000, Num 0x3F800000, Num 10,
                     Num 0x3F800000, Num 0x3F800000, Num 0x3F800000] \<and>
       size_normal s = 26 \<and> size_extended s = 34 \<and>
       (\<exists>b. encode s [Num 3, Num 9, Num 7, Num 8, Num 0x3F800000, Num 0x3F800000, Num 10,
                      Num 0x3F800000, Num 0x3F800000, Num 0x3F800000] False = Inr b \<and>
            length b = size_normal s \<and>
            enc_fields (filter (\<lambda>f. \<not> is_extension f) (wfields s))
              [Num 3, Num 9, Num 7, Num 8, Num 0x3F800000, Num 0x3F800000, Num 10,
               Num 0x3F800000, Num 0x3F800000, Num 0x3F800000] = Inr b) \<and>
       decode s [0x03, 0, 0, 0, 0, 0, 0, 0, 0, 0, 0x80, 0x3F, 0, 0, 0x80, 0x3F, 0, 0, 0x80, 0x3F,
                 0x07, 0, 0x08, 0, 0x09, 0x0A] False
         = Inr [Num 3, Num 9, Num 7, Num 8, Num 0x3F800000, Num 0x3F800000, Num 10,
                Num 0x3F800000, Num 0, Num 0] \<and>
       is_extension (declared s ! 8) \<and> is_extension (declared s ! 9) \<and>
       zero_value (declared s ! 8) = Num 0 \<and> zero_value (declared s ! 9) = Num 0"
proof -
  let ?s = "projr (newDialectMessage MessageOpticalFlow)"
  let ?v = "[Num 3, Num 9, Num 7, Num 8, Num 0x3F800000, Num 0x3F800000, Num 10,
             Num 0x3F800000, Num 0x3F800000, Num 0x3F800000]"
  have s: "newDialectMessage MessageOpticalFlow = Inr ?s"
    by (simp add: MessageOpticalFlow_def build_defs)
  have wt: "well_typed ?s ?v"
    by (simp add: MessageOpticalFlow_def build_defs well_typed_def conforms_def in_storage_def
        supported_def)
  have sz: "size_normal ?s = 26 \<and> size_extended ?s = 34"
    by (simp add: MessageOpticalFlow_def build_defs)
  have ex: "is_extension (declared ?s ! 8) \<and> is_extension (declared ?s ! 9) \<and>
       zero_value (declared ?s ! 8) = Num 0 \<and> zero_value (declared ?s ! 9) = Num 0"
    by (simp add: MessageOpticalFlow_def build_defs zero_value_def)
  note t = v1_omits_extensions[OF s wt]
  from t have enc: "\<exists>b. encode ?s ?v False = Inr b \<and> length b = size_normal ?s \<and>
            enc_fields (filter (\<lambda>f. \<not> is_extension f) (wfields ?s)) ?v = Inr b"
    by blast
  from t have "testMessageDecode MessageOpticalFlow False
             [0x03, 0, 0, 0, 0, 0, 0, 0, 0, 0, 0x80, 0x3F, 0, 0, 0x80, 0x3F, 0, 0, 0x80, 0x3F,
              0x07, 0, 0x08, 0, 0x09, 0x0A]
           = Inr [Num 3, Num 9, Num 7, Num 8, Num 0x3F800000, Num 0x3F800000, Num 10,
                  Num 0x3F800000, Num 0, Num 0]"
    by blast
  then have dec: "decode ?s [0x03, 0, 0, 0, 0, 0, 0, 0, 0, 0, 0x80, 0x3F, 0, 0, 0x80, 0x3F, 0, 0, 0x80, 0x3F,
              0x07, 0, 0x08, 0, 0x09, 0x0A] False
           = Inr [Num 3, Num 9, Num 7, Num 8, Num 0x3F800000, Num 0x3F800000, Num 10,
                  Num 0x3F800000, Num 0, Num 0]"
    unfolding testMessageDecode_def by (subst (asm) s) simp
  from s wt sz enc dec ex show ?thesis by blast
qed

lemma encode_v2:
  assumes "newDialectMessage m = Inr s" "well_typed s vs"
  shows "\<exists>buf. enc_fields (wfields s) vs = Inr buf \<and> length buf = size_extended s \<and>
               encode s vs True = Inr (truncate_zeros buf)"
proof -
  from encode_buffer[OF assms] obtain n e where
    b: "enc_fields (wfields s) vs = Inr (n @ e)" and l: "length (n @ e) = size_extended s"
    by blast
  have "encode s vs True = Inr (truncate_zeros (n @ e))" using b by (simp add: encode_def)
  with b l show ?thesis by blast
qed

lemma decode_v2_pad:
  assumes "b \<noteq> []" "length b \<le> size_extended s"
  shows "decode s b True = decode s (b @ replicate (size_extended s - length b) 0) True"
  using assms by (simp add: decode_def)

text \<open>
  Claim C3, as amended. For every schema and well-typed value, encoding at v2 produces
  the full total payload with its trailing zero bytes stripped, never shortened below
  one byte; decoding at v2 a payload that is not empty and not longer than the total
  payload size is decoding the payload padded on the right with zero bytes up to that
  size. MessageAhrs with OmegaIx=1 .. RenormVal=5 and ErrorRp=ErrorYaw=0 encodes at v2
  to the 20-byte vector, the trailing 8 zero bytes stripped, and that vector decodes
  back to the same value.
\<close>

theorem v2_truncation_and_padding:
  assumes "newDialectMessage m = Inr s" and "well_typed s vs"
  shows "(\<exists>buf. enc_fields (wfields s) vs = Inr buf \<and> length buf = size_extended s \<and>
               encode s vs True = Inr (truncate_zeros buf) \<and>
               (\<exists>k. buf = truncate_zeros buf @ replicate k 0) \<and>
               (buf \<noteq> [] \<longrightarrow> truncate_zeros buf \<noteq> []) \<and>
               (1 < length (truncate_zeros buf) \<longrightarrow> last (truncate_zeros buf) \<noteq> 0)) \<and>
         (\<forall>b. b \<noteq> [] \<and> length b \<le> size_extended s \<longrightarrow>
               decode s b True = decode s (b @ replicate (size_extended s - length b) 0) True) \<and>
         testMessageEncode MessageAhrs True
             [Num 0x3F800000, Num 0x40000000, Num 0x40400000, Num 0x40800000, Num 0x40A00000,
              Num 0, Num 0]
           = Inr [0, 0, 0x80, 0x3F, 0, 0, 0, 0x40, 0, 0, 0x40, 0x40, 0, 0, 0x80, 0x40,
                  0, 0, 0xA0, 0x40] \<and>
         testMessageDecode MessageAhrs True
             [0, 0, 0x80, 0x3F, 0, 0, 0, 0x40, 0, 0, 0x40, 0x40, 0, 0, 0x80, 0x40, 0, 0, 0xA0, 0x40]
           = Inr [Num 0x3F800000, Num 0x40000000, Num 0x40400000, Num 0x40800000,
                  Num 0x40A00000, Num 0, Num 0]"
proof (intro conjI)
  from encode_v2[OF assms] obtain buf where
    b: "enc_fields (wfields s) vs = Inr buf" "length buf = size_extended s"
       "encode s vs True = Inr (truncate_zeros buf)" by blast
  have "\<exists>k. buf = truncate_zeros buf @ replicate k 0" by (rule truncate_zeros_pad)
  moreover have "buf \<noteq> [] \<longrightarrow> truncate_zeros buf \<noteq> []" by (simp add: truncate_zeros_nonempty)
  moreover have "1 < length (truncate_zeros buf) \<longrightarrow> last (truncate_zeros buf) \<noteq> 0"
    using truncate_zeros_last[of buf] by blast
  ultimately show "\<exists>buf. enc_fields (wfields s) vs = Inr buf \<and> length buf = size_extended s \<and>
               encode s vs True = Inr (truncate_zeros buf) \<and>
               (\<exists>k. buf = truncate_zeros buf @ replicate k 0) \<and>
               (buf \<noteq> [] \<longrightarrow> truncate_zeros buf \<noteq> []) \<and>
               (1 < length (truncate_zeros buf) \<longrightarrow> last (truncate_zeros buf) \<noteq> 0)"
    using b by blast
  show "\<forall>b. b \<noteq> [] \<and> length b \<le> size_extended s \<longrightarrow>
               decode s b True = decode s (b @ replicate (size_extended s - length b) 0) True"
    using decode_v2_pad by blast
  show "testMessageEncode MessageAhrs True
             [Num 0x3F800000, Num 0x40000000, Num 0x40400000, Num 0x40800000, Num 0x40A00000,
              Num 0, Num 0]
           = Inr [0, 0, 0x80, 0x3F, 0, 0, 0, 0x40, 0, 0, 0x40, 0x40, 0, 0, 0x80, 0x40,
                  0, 0, 0xA0, 0x40]"
    by (simp add: MessageAhrs_def build_defs enc_defs)
  show "testMessageDecode MessageAhrs True
             [0, 0, 0x80, 0x3F, 0, 0, 0, 0x40, 0, 0, 0x40, 0x40, 0, 0, 0x80, 0x40, 0, 0, 0xA0, 0x40]
           = Inr [Num 0x3F800000, Num 0x40000000, Num 0x40400000, Num 0x40800000,
                  Num 0x40A00000, Num 0, Num 0]"
    by (simp add: MessageAhrs_def build_defs dec_defs)
qed

theorem v2_truncation_and_padding_witness:
  "\<exists>s. newDialectMessage MessageAhrs = Inr s \<and>
       well_typed s [Num 0x3F800000, Num 0x40000000, Num 0x40400000, Num 0x40800000,
                     Num 0x40A00000, Num 0, Num 0] \<and>
       size_extended s = 28 \<and>
       (\<exists>buf. enc_fields (wfields s)
                 [Num 0x3F800000, Num 0x40000000, Num 0x40400000, Num 0x40800000,
                  Num 0x40A00000, Num 0, Num 0] = Inr buf \<and>
              length buf = 28 \<and>
              truncate_zeros buf = [0, 0, 0x80, 0x3F, 0, 0, 0, 0x40, 0, 0, 0x40, 0x40,
                                    0, 0, 0x80, 0x40, 0, 0, 0xA0, 0x40] \<and>
              buf = truncate_zeros buf @ replicate 8 0) \<and>
       decode s [0, 0, 0x80, 0x3F, 0, 0, 0, 0x40, 0, 0, 0x40, 0x40, 0, 0, 0x80, 0x40,
                 0, 0, 0xA0, 0x40] True
         = decode s ([0, 0, 0x80, 0x3F, 0, 0, 0, 0x40, 0, 0, 0x40, 0x40, 0, 0, 0x80, 0x40,
                      0, 0, 0xA0, 0x40] @ replicate 8 0) True"
proof -
  let ?s = "projr (newDialectMessage MessageAhrs)"
  let ?v = "[Num 0x3F800000, Num 0x40000000, Num 0x40400000, Num 0x40800000,
             Num 0x40A00000, Num 0, Num 0]"
  let ?b = "[0, 0, 0x80, 0x3F, 0, 0, 0, 0x40, 0, 0, 0x40, 0x40, 0, 0, 0x80, 0x40,
             0, 0, 0xA0, 0x40] :: byte list"
  have s: "newDialectMessage MessageAhrs = Inr ?s"
    by (simp add: MessageAhrs_def build_defs)
  have wt: "well_typed ?s ?v"
    by (simp add: MessageAhrs_def build_defs well_typed_def conforms_def in_storage_def
        supported_def)
  have sz: "size_extended ?s = 28"
    by (simp add: MessageAhrs_def build_defs)
  note t = v2_truncation_and_padding[OF s wt]
  from t obtain buf where b: "enc_fields (wfields ?s) ?v = Inr buf" "length buf = size_extended ?s"
    "encode ?s ?v True = Inr (truncate_zeros buf)" "\<exists>k. buf = truncate_zeros buf @ replicate k 0"
    by blast
  from t have "testMessageEncode MessageAhrs True ?v = Inr ?b" by blast
  then have "encode ?s ?v True = Inr ?b"
    unfolding testMessageEncode_def by (subst (asm) s) simp
  with b(3) have tr: "truncate_zeros buf = ?b" by simp
  from b(4) obtain k where k: "buf = truncate_zeros buf @ replicate k 0" by blast
  then have "length buf = length (truncate_zeros buf) + k"
    by (metis length_append length_replicate)
  then have "k = 8" using b(2) sz tr by simp
  with k have pad: "buf = truncate_zeros buf @ replicate 8 0" by simp
  have "?b \<noteq> [] \<and> length ?b \<le> size_extended ?s" by (simp add: sz)
  with t have "decode ?s ?b True = decode ?s (?b @ replicate (size_extended ?s - length ?b) 0) True"
    by blast
  then have dec: "decode ?s ?b True = decode ?s (?b @ replicate 8 0) True" by (simp add: sz)
  have "length buf = 28" using b(2) sz by simp
  with s wt sz b(1) tr pad dec show ?thesis by blast
qed

text \<open>
  The empty payload is shorter than the total payload size and is not padded: the
  decoder refuses it with \<open>EmptyPayload\<close>, while the 28 zero bytes that padding
  would give for MessageAhrs decode to the zero value.
\<close>

theorem v2_padding_counterexample:
  "\<exists>s. newDialectMessage MessageAhrs = Inr s \<and>
       length ([] :: byte list) < size_extended s \<and>
       decode s [] True = Inl EmptyPayload \<and>
       decode s ([] @ replicate (size_extended s - length ([] :: byte list)) 0) True
         = Inr [Num 0, Num 0, Num 0, Num 0, Num 0, Num 0, Num 0]"
proof -
  let ?s = "projr (newDialectMessage MessageAhrs)"
  have s: "newDialectMessage MessageAhrs = Inr ?s"
    by (simp add: MessageAhrs_def build_defs)
  have l: "length ([] :: byte list) < size_extended ?s"
    by (simp add: MessageAhrs_def build_defs)
  have e: "decode ?s [] True = Inl EmptyPayload"
    by (simp add: decode_def)
  have p: "decode ?s ([] @ replicate (size_extended ?s - length ([] :: byte list)) 0) True
         = Inr [Num 0, Num 0, Num 0, Num 0, Num 0, Num 0, Num 0]"
    by (simp add: MessageAhrs_def build_defs dec_defs)
  show ?thesis by (rule exI[of _ ?s]) (intro conjI s l e p)
qed

subsection \<open>What the decoder returns on an encoding\<close>

lemma unat_take_bit_less: "unat (take_bit n (x::uint64)) < 2 ^ n"
  by (simp add: unsigned_take_bit_eq)

lemma sint_signed_take_bit_word:
  assumes "n < 64"
  shows "sint (signed_take_bit n (x::uint64)) = signed_take_bit n (sint x)"
proof (rule bit_eqI)
  fix i
  have a: "min n (min i 63) = min (min n i) 63" using assms by simp
  have "bit (sint (signed_take_bit n x)) i = bit (signed_take_bit n x) (min i 63)"
    by (auto simp add: bit_sint_iff min_def dest: bit_imp_le_length)
  also have "\<dots> = bit x (min n (min i 63))"
  proof -
    have "min i 63 < 64" by simp
    then show ?thesis by (simp add: bit_signed_take_bit_iff)
  qed
  also have "\<dots> = bit x (min (min n i) 63)" by (simp only: a)
  also have "\<dots> = bit (sint x) (min n i)"
    using assms by (auto simp add: bit_sint_iff min_def dest: bit_imp_le_length)
  also have "\<dots> = bit (signed_take_bit n (sint x)) i"
    by (simp add: bit_signed_take_bit_iff)
  finally show "bit (sint (signed_take_bit n x)) i = bit (signed_take_bit n (sint x)) i" .
qed

lemma signed_take_bit_range:
  assumes "signed_take_bit n (x::uint64) = x"
  shows "- (2 ^ n) \<le> sint x \<and> sint x < 2 ^ n"
proof (cases "n < 64")
  case True
  have "sint x = signed_take_bit n (sint x)"
    using sint_signed_take_bit_word[OF True, of x] assms by simp
  then show ?thesis
    by (metis signed_take_bit_int_greater_eq_minus_exp signed_take_bit_int_less_exp)
next
  case False
  then have n: "63 \<le> n" by simp
  have p: "(2::int) ^ 63 \<le> 2 ^ n" by (rule power_increasing) (use n in simp_all)
  have "- (2 ^ 63) \<le> sint x" using sint_ge[of x] by simp
  moreover have "sint x < 2 ^ 63" using sint_lt[of x] by simp
  ultimately show ?thesis using p by linarith
qed

lemma dec_enc_scalar_value:
  "dec_scalar f (enc_scalar (wire_type f) x) =
     Inr (if is_enum f \<and> is_signed (wire_type f)
          then signed_take_bit (8 * width (wire_type f) - 1) x
          else take_bit (8 * width (wire_type f)) x)"
proof -
  let ?t = "wire_type f"
  consider (u24) "?t = U24" | (u48) "?t = U48" | (other) "?t \<noteq> U24" "?t \<noteq> U48" by blast
  then show ?thesis
  proof cases
    case u24
    then show ?thesis
      by (simp add: dec_scalar_def enc_scalar_def uint24_dec_enc ucast_take_bit_ucast)
  next
    case u48
    then show ?thesis by (simp add: dec_scalar_def enc_scalar_def uint48_dec_enc)
  next
    case other
    have raw: "le_decode (le_encode (width ?t) x) = take_bit (8 * width ?t) x"
      by (rule le_decode_encode)
    have "0 < width ?t" by (cases ?t) auto
    then have "\<not> 8 * width ?t \<le> 8 * width ?t - 1" by simp
    then have "signed_take_bit (8 * width ?t - 1) (take_bit (8 * width ?t) x)
                 = signed_take_bit (8 * width ?t - 1) x"
      by (simp add: signed_take_bit_take_bit)
    then show ?thesis using other by (simp add: dec_scalar_def enc_scalar_def raw)
  qed
qed

lemma dec_enc_scalar_on_wire:
  assumes "dec_scalar f (enc_scalar (wire_type f) x) = Inr x"
  shows "on_wire f x"
proof (cases "is_enum f \<and> is_signed (wire_type f)")
  case True
  with assms have "signed_take_bit (8 * width (wire_type f) - 1) x = x"
    by (simp add: dec_enc_scalar_value)
  from signed_take_bit_range[OF this] True show ?thesis by (simp add: on_wire_def)
next
  case False
  with assms have "take_bit (8 * width (wire_type f)) x = x"
    by (auto simp add: dec_enc_scalar_value)
  then have "unat x < 2 ^ (8 * width (wire_type f))"
    using unat_take_bit_less[of "8 * width (wire_type f)" x] by simp
  with False show ?thesis by (auto simp add: on_wire_def)
qed

lemma dec_elems_enc_value:
  "dec_elems f (length xs) (concat (map (enc_scalar (wire_type f)) xs)) = Inr ys \<Longrightarrow>
   length ys = length xs \<and>
   (\<forall>i<length xs. dec_scalar f (enc_scalar (wire_type f) (xs ! i)) = Inr (ys ! i))"
proof (induction xs arbitrary: ys)
  case Nil
  then show ?case by simp
next
  case (Cons x xs)
  from Cons.prems obtain y ys' where
    y: "dec_scalar f (enc_scalar (wire_type f) x) = Inr y"
    and r: "dec_elems f (length xs) (concat (map (enc_scalar (wire_type f)) xs)) = Inr ys'"
    and ys: "ys = y # ys'"
    by (auto simp add: length_enc_scalar split: sum.splits)
  from Cons.IH[OF r] y show ?case by (auto simp add: ys nth_Cons split: nat.splits)
qed

lemma dec_enc_field_representable:
  assumes "enc_field f v = Inr bs" "dec_field f bs = Inr v"
  shows "representable f v"
proof (cases v)
  case (Num x)
  with assms have "dec_scalar f (enc_scalar (wire_type f) x) = Inr x"
    by (auto simp: enc_field_def dec_field_def split: if_splits sum.splits)
  then show ?thesis by (simp add: Num representable_def dec_enc_scalar_on_wire)
next
  case (Str s)
  with assms have t: "takeWhile (\<lambda>b. b \<noteq> 0) (enc_string (array_length f) s) = s"
    by (auto simp: enc_field_def dec_field_def split: if_splits)
  have "length (takeWhile (\<lambda>b. b \<noteq> 0) (enc_string (array_length f) s))
          \<le> length (enc_string (array_length f) s)"
    by (rule length_takeWhile_le)
  then have l: "length s \<le> array_length f" by (simp add: t length_enc_string)
  have "0 \<notin> set (takeWhile (\<lambda>b. b \<noteq> 0) (enc_string (array_length f) s))"
    using set_takeWhileD by fastforce
  then have "0 \<notin> set s" by (simp add: t)
  with l show ?thesis by (simp add: Str representable_def)
next
  case (Arr xs)
  with assms have a: "length xs = array_length f"
    "dec_elems f (length xs) (concat (map (enc_scalar (wire_type f)) xs)) = Inr xs"
    by (auto simp: enc_field_def dec_field_def split: if_splits sum.splits)
  from dec_elems_enc_value[OF a(2)]
  have "\<forall>i<length xs. on_wire f (xs ! i)" by (simp add: dec_enc_scalar_on_wire)
  then show ?thesis by (simp add: Arr representable_def list_all_length)
qed

lemma dec_fields_result:
  assumes "enc_fields fs vs = Inr buf" "dec_fields fs (buf @ rest) acc = Inr acc'"
    and "distinct (map index fs)" "f \<in> set fs"
  shows "\<exists>bs. enc_field f (vs ! index f) = Inr bs \<and> dec_field f bs = Inr (acc' ! index f)"
  using assms
proof (induction fs arbitrary: buf acc)
  case Nil
  then show ?case by simp
next
  case (Cons g fs)
  from Cons.prems(1) obtain bs r where b: "enc_field g (vs ! index g) = Inr bs"
    and r: "enc_fields fs vs = Inr r" and buf: "buf = bs @ r"
    by (auto split: if_splits sum.splits)
  have l: "length bs = field_size g" using enc_field_length[OF b] .
  from Cons.prems(2) obtain v where i: "index g < length acc"
    and d: "dec_field g bs = Inr v"
    and rest: "dec_fields fs (r @ rest) (acc[index g := v]) = Inr acc'"
    by (auto simp add: buf l split: if_splits sum.splits)
  show ?case
  proof (cases "f = g")
    case True
    have "index g \<notin> index ` set fs" using Cons.prems(3) by auto
    with dec_fields_untouched[OF rest] have "acc' ! index g = (acc[index g := v]) ! index g"
      by blast
    then have "acc' ! index g = v" using i by simp
    with b d True show ?thesis by blast
  next
    case False
    then have "f \<in> set fs" using Cons.prems(4) by simp
    moreover have "distinct (map index fs)" using Cons.prems(3) by simp
    ultimately show ?thesis using Cons.IH[OF r rest] by blast
  qed
qed

lemma distinct_index_wire:
  assumes "newDialectMessage m = Inr s"
  shows "distinct (map index (wfields s))"
    and "distinct (map index (filter (\<lambda>f. \<not> is_extension f) (wfields s)))"
proof -
  have w: "wfields s = wire_fields (declared s)"
    using newDialectMessage_Inr[OF assms] by simp
  have d: "distinct (map index (declared s))"
    using schema_index[OF assms] by (metis distinct_upt)
  then have dd: "distinct (declared s)" and inj: "inj_on index (set (declared s))"
    by (auto simp add: distinct_map)
  have "distinct (wire_fields (declared s))"
    using dd by (auto simp add: wire_fields_def sort_fields_def)
  then show a: "distinct (map index (wfields s))"
    using inj by (simp add: w distinct_map set_wire_fields)
  then show "distinct (map index (filter (\<lambda>f. \<not> is_extension f) (wfields s)))"
    by (rule distinct_map_filter)
qed

lemma wire_representable_field:
  assumes "newDialectMessage m = Inr s" "wire_representable s vs isV2" "f \<in> set (declared s)"
    and "isV2 \<or> \<not> is_extension f"
  shows "representable f (vs ! index f)"
proof -
  from assms(2)
  have a: "list_all2 (\<lambda>f v. (is_extension f \<and> \<not> isV2) \<or> representable f v) (declared s) vs"
    by (simp add: wire_representable_def)
  from index_member[OF schema_index[OF assms(1)] assms(3)]
  have i: "index f < length (declared s)" "declared s ! index f = f" by auto
  from list_all2_nthD[OF a i(1)] i assms(4) show ?thesis by auto
qed

lemma wire_representableI:
  assumes "newDialectMessage m = Inr s" "well_typed s vs"
    and "\<And>f. f \<in> set (declared s) \<Longrightarrow> isV2 \<or> \<not> is_extension f \<Longrightarrow>
              representable f (vs ! index f)"
  shows "wire_representable s vs isV2"
proof -
  have len: "length (declared s) = length vs"
    using assms(2) by (simp add: well_typed_def list_all2_lengthD)
  have "(is_extension (declared s ! i) \<and> \<not> isV2) \<or> representable (declared s ! i) (vs ! i)"
    if i: "i < length (declared s)" for i
  proof (cases "is_extension (declared s ! i) \<and> \<not> isV2")
    case True
    then show ?thesis by simp
  next
    case False
    have "declared s ! i \<in> set (declared s)" using i by simp
    moreover have "index (declared s ! i) = i"
      using index_positions(2)[OF schema_index[OF assms(1)] i] .
    ultimately have "representable (declared s ! i) (vs ! i)"
      using assms(3)[of "declared s ! i"] False by auto
    then show ?thesis by simp
  qed
  then show ?thesis using len by (simp add: wire_representable_def list_all2_all_nthI)
qed

lemma round_trip_v2:
  assumes s: "newDialectMessage m = Inr s" and wt: "well_typed s vs"
    and rp: "wire_representable s vs True" and pos: "0 < size_extended s"
  shows "round_trips s vs True"
proof -
  from encode_v2[OF s wt] obtain buf where
    b: "enc_fields (wfields s) vs = Inr buf" and l: "length buf = size_extended s"
    and e: "encode s vs True = Inr (truncate_zeros buf)" by blast
  let ?t = "truncate_zeros buf"
  have "buf \<noteq> []" using pos l by auto
  then have ne: "?t \<noteq> []" by (rule truncate_zeros_nonempty)
  have restore: "?t @ replicate (length buf - length ?t) 0 = buf" by (rule truncate_zeros_restore)
  then have "length ?t \<le> length buf" by (metis length_append le_add1)
  then have d: "decode s ?t True = dec_fields (wfields s) buf (map zero_value (declared s))"
    using ne l restore by (simp add: decode_def)
  have w: "set (wfields s) = set (declared s)"
    using newDialectMessage_Inr[OF s] by (simp add: set_wire_fields)
  have len: "length (declared s) = length vs"
    using wt by (simp add: well_typed_def list_all2_lengthD)
  have r: "\<And>f. f \<in> set (wfields s) \<Longrightarrow> representable f (vs ! index f)"
    using wire_representable_field[OF s rp] w by simp
  have "length (map zero_value (declared s)) = length vs" using len by simp
  from dec_fields_enc[OF b r this, of "[]"] obtain acc' where
    a: "dec_fields (wfields s) buf (map zero_value (declared s)) = Inr acc'"
    "length acc' = length vs"
    "\<forall>i<length vs. acc' ! i = (if i \<in> index ` set (wfields s) then vs ! i
                                   else map zero_value (declared s) ! i)"
    by auto
  have "acc' ! i = vs ! i" if i: "i < length vs" for i
  proof -
    have "declared s ! i \<in> set (declared s)" using i len by simp
    moreover have "index (declared s ! i) = i"
      using index_positions(2)[OF schema_index[OF s]] i len by simp
    ultimately have "i \<in> index ` set (wfields s)" using w by force
    then show ?thesis using a(3) i by simp
  qed
  then have "acc' = vs" using a(2) by (simp add: nth_equalityI)
  then show ?thesis using e d a(1) by (simp add: round_trips_def)
qed

lemma round_trip_v1:
  assumes s: "newDialectMessage m = Inr s" and wt: "well_typed s vs"
    and rp: "wire_representable s vs False" and pos: "0 < size_normal s"
  shows "round_trips s vs False"
proof -
  let ?ne = "filter (\<lambda>f. \<not> is_extension f) (wfields s)"
  from encode_v1[OF s wt] obtain n where
    e: "encode s vs False = Inr n" and l: "length n = size_normal s"
    and b: "enc_fields ?ne vs = Inr n" by blast
  have ne: "n \<noteq> []" using pos l by auto
  have d: "decode s n False = dec_fields ?ne n (map zero_value (declared s))"
    using ne l by (simp add: decode_def)
  have w: "set (wfields s) = set (declared s)"
    using newDialectMessage_Inr[OF s] by (simp add: set_wire_fields)
  have len: "length (declared s) = length vs"
    using wt by (simp add: well_typed_def list_all2_lengthD)
  have r: "\<And>f. f \<in> set ?ne \<Longrightarrow> representable f (vs ! index f)"
    using wire_representable_field[OF s rp] w by simp
  have "length (map zero_value (declared s)) = length vs" using len by simp
  from dec_fields_enc[OF b r this, of "[]"] obtain acc' where
    a: "dec_fields ?ne n (map zero_value (declared s)) = Inr acc'"
    "length acc' = length vs"
    "\<forall>i<length vs. acc' ! i = (if i \<in> index ` set ?ne then vs ! i
                                   else map zero_value (declared s) ! i)"
    by auto
  have "acc' ! i = clear_extensions s vs ! i" if i: "i < length vs" for i
  proof -
    have i': "i < length (declared s)" using i len by simp
    have "acc' ! i = (if \<not> is_extension (declared s ! i) then vs ! i
                      else zero_value (declared s ! i))"
      using a(3) i i' nonext_index[OF s i'] by simp
    then show ?thesis using i i' by (simp add: clear_extensions_def)
  qed
  moreover have "length (clear_extensions s vs) = length vs"
    using len by (simp add: clear_extensions_def)
  ultimately have "acc' = clear_extensions s vs" using a(2) by (simp add: nth_equalityI)
  then show ?thesis using e d a(1) by (simp add: round_trips_def)
qed

lemma round_trip_v2_only:
  assumes s: "newDialectMessage m = Inr s" and wt: "well_typed s vs"
    and rt: "round_trips s vs True"
  shows "0 < size_extended s \<and> wire_representable s vs True"
proof -
  from encode_v2[OF s wt] obtain buf where
    b: "enc_fields (wfields s) vs = Inr buf" and l: "length buf = size_extended s"
    and e: "encode s vs True = Inr (truncate_zeros buf)" by blast
  let ?t = "truncate_zeros buf"
  from rt e have d: "decode s ?t True = Inr vs" by (simp add: round_trips_def)
  then have ne: "?t \<noteq> []" by (auto simp add: decode_def)
  then have "buf \<noteq> []" by (auto simp add: truncate_zeros_def)
  then have "0 < length buf" by simp
  then have pos: "0 < size_extended s" by (simp only: l)
  have restore: "?t @ replicate (length buf - length ?t) 0 = buf" by (rule truncate_zeros_restore)
  then have "length ?t \<le> length buf" by (metis length_append le_add1)
  then have "decode s ?t True = dec_fields (wfields s) buf (map zero_value (declared s))"
    using ne l restore by (simp add: decode_def)
  with d have df: "dec_fields (wfields s) (buf @ []) (map zero_value (declared s)) = Inr vs"
    by simp
  have w: "set (wfields s) = set (declared s)"
    using newDialectMessage_Inr[OF s] by (simp add: set_wire_fields)
  have "representable f (vs ! index f)" if "f \<in> set (declared s)" for f
  proof -
    have "f \<in> set (wfields s)" using that w by simp
    from dec_fields_result[OF b df distinct_index_wire(1)[OF s] this]
    show ?thesis using dec_enc_field_representable by blast
  qed
  then have "wire_representable s vs True" using wire_representableI[OF s wt] by blast
  with pos show ?thesis by simp
qed

lemma round_trip_v1_only:
  assumes s: "newDialectMessage m = Inr s" and wt: "well_typed s vs"
    and rt: "round_trips s vs False"
  shows "0 < size_normal s \<and> wire_representable s vs False"
proof -
  let ?ne = "filter (\<lambda>f. \<not> is_extension f) (wfields s)"
  from encode_v1[OF s wt] obtain n where
    e: "encode s vs False = Inr n" and l: "length n = size_normal s"
    and b: "enc_fields ?ne vs = Inr n" by blast
  from rt e have d: "decode s n False = Inr (clear_extensions s vs)"
    by (simp add: round_trips_def)
  then have ne: "n \<noteq> []" by (auto simp add: decode_def)
  then have "0 < length n" by simp
  then have pos: "0 < size_normal s" by (simp only: l)
  have "decode s n False = dec_fields ?ne n (map zero_value (declared s))"
    using ne l by (simp add: decode_def)
  with d have df: "dec_fields ?ne (n @ []) (map zero_value (declared s))
                     = Inr (clear_extensions s vs)" by simp
  have w: "set (wfields s) = set (declared s)"
    using newDialectMessage_Inr[OF s] by (simp add: set_wire_fields)
  have len: "length (declared s) = length vs"
    using wt by (simp add: well_typed_def list_all2_lengthD)
  have "representable f (vs ! index f)"
    if f: "f \<in> set (declared s)" and x: "False \<or> \<not> is_extension f" for f
  proof -
    have m: "f \<in> set ?ne" using f x w by simp
    from index_member[OF schema_index[OF s] f]
    have i: "index f < length (declared s)" "declared s ! index f = f" by auto
    then have c: "clear_extensions s vs ! index f = vs ! index f"
      using x len by (simp add: clear_extensions_def)
    from dec_fields_result[OF b df distinct_index_wire(2)[OF s] m]
    show ?thesis using dec_enc_field_representable c by auto
  qed
  then have "wire_representable s vs False" using wire_representableI[OF s wt] by blast
  with pos show ?thesis by simp
qed

text \<open>
  Claim C1, as amended. For every schema and every well-typed value, decoding the bytes
  of the encoding returns the value at v2, and the value with its extension fields
  cleared at v1, exactly when the payload size at that version is at least one byte and
  every field that travels at that version is representable on the wire (no string
  longer than its declared length or with a zero byte, every number in the range of its
  wire type); at v1 the extension fields do not travel and may hold any well-typed value.
\<close>

theorem round_trip_representable:
  assumes "newDialectMessage m = Inr s" and "well_typed s vs"
  shows "round_trips s vs isV2 =
           (0 < (if isV2 then size_extended s else size_normal s) \<and>
            wire_representable s vs isV2)"
proof (cases isV2)
  case True
  then show ?thesis
    using round_trip_v2[OF assms] round_trip_v2_only[OF assms] by auto
next
  case False
  then show ?thesis
    using round_trip_v1[OF assms] round_trip_v1_only[OF assms] by auto
qed

theorem round_trip_representable_witness:
  "\<exists>s. newDialectMessage MessagePlayTune = Inr s \<and>
       well_typed s [Num 1, Num 2, Str (bytes_of ''test1''), Str (bytes_of ''test2'')] \<and>
       0 < size_extended s \<and>
       wire_representable s [Num 1, Num 2, Str (bytes_of ''test1''), Str (bytes_of ''test2'')] True \<and>
       round_trips s [Num 1, Num 2, Str (bytes_of ''test1''), Str (bytes_of ''test2'')] True \<and>
       well_typed s [Num 1, Num 2, Str (bytes_of ''test1''), Str (replicate 201 0x61)] \<and>
       0 < size_normal s \<and>
       wire_representable s [Num 1, Num 2, Str (bytes_of ''test1''), Str (replicate 201 0x61)] False \<and>
       round_trips s [Num 1, Num 2, Str (bytes_of ''test1''), Str (replicate 201 0x61)] False \<and>
       \<not> wire_representable s [Num 1, Num 2, Str (bytes_of ''test1''), Str (replicate 201 0x61)] True \<and>
       \<not> round_trips s [Num 1, Num 2, Str (bytes_of ''test1''), Str (replicate 201 0x61)] True"
proof -
  let ?s = "projr (newDialectMessage MessagePlayTune)"
  let ?v = "[Num 1, Num 2, Str (bytes_of ''test1''), Str (bytes_of ''test2'')]"
  let ?l = "[Num 1, Num 2, Str (bytes_of ''test1''), Str (replicate 201 0x61)]"
  have s: "newDialectMessage MessagePlayTune = Inr ?s"
    by (simp add: MessagePlayTune_def build_defs)
  have wt: "well_typed ?s ?v"
    by (simp add: MessagePlayTune_def build_defs well_typed_def conforms_def in_storage_def
        supported_def)
  have wl: "well_typed ?s ?l"
    by (simp add: MessagePlayTune_def build_defs well_typed_def conforms_def in_storage_def
        supported_def)
  have se: "0 < size_extended ?s" by (simp add: MessagePlayTune_def build_defs)
  have sn: "0 < size_normal ?s" by (simp add: MessagePlayTune_def build_defs)
  have rv: "wire_representable ?s ?v True"
    by (simp add: MessagePlayTune_def build_defs wire_representable_def representable_def
        on_wire_def bytes_of_def)
  have rl: "wire_representable ?s ?l False"
    by (simp add: MessagePlayTune_def build_defs wire_representable_def representable_def
        on_wire_def bytes_of_def)
  have nl: "\<not> wire_representable ?s ?l True"
    by (simp add: MessagePlayTune_def build_defs wire_representable_def representable_def
        on_wire_def bytes_of_def)
  have r2: "round_trips ?s ?v True"
    using round_trip_representable[OF s wt, of True] se rv by simp
  have r1: "round_trips ?s ?l False"
    using round_trip_representable[OF s wl, of False] sn rl by simp
  have n2: "\<not> round_trips ?s ?l True"
    using round_trip_representable[OF s wl, of True] nl by simp
  show ?thesis
    by (rule exI[of _ ?s]) (intro conjI s wt se rv r2 wl sn rl r1 nl n2)
qed

text \<open>
  Without these conditions the round trip does not hold for every well-typed value: a
  string longer than the declared length comes back truncated, a string with a zero
  byte comes back cut at that byte, an enumeration value beyond its wire type comes
  back reduced, and the empty payload of a message without fields is refused by the
  decoder at both versions.
\<close>

theorem round_trip_counterexample:
  "(\<exists>s. newDialectMessage MessageChangeOperatorControl = Inr s \<and>
        well_typed s [Num 1, Num 1, Num 1, Str (replicate 26 0x61)] \<and>
        \<not> round_trips s [Num 1, Num 1, Num 1, Str (replicate 26 0x61)] True) \<and>
   (\<exists>s. newDialectMessage MessageChangeOperatorControl = Inr s \<and>
        well_typed s [Num 1, Num 1, Num 1, Str [0x61, 0x00, 0x62]] \<and>
        \<not> round_trips s [Num 1, Num 1, Num 1, Str [0x61, 0x00, 0x62]] True) \<and>
   (\<exists>s. newDialectMessage MessageHeartbeat = Inr s \<and>
        well_typed s [Num 256, Num 2, Num 3, Num 6, Num 4, Num 5] \<and>
        \<not> round_trips s [Num 256, Num 2, Num 3, Num 6, Num 4, Num 5] False) \<and>
   (\<exists>s. newDialectMessage \<lparr>md_name = ''MessageEmpty'', md_id = 0, md_fields = []\<rparr> = Inr s \<and>
        well_typed s [] \<and> \<not> round_trips s [] True \<and> \<not> round_trips s [] False)"
proof (intro conjI)
  let ?s = "projr (newDialectMessage MessageChangeOperatorControl)"
  have s: "newDialectMessage MessageChangeOperatorControl = Inr ?s"
    by (simp add: MessageChangeOperatorControl_def build_defs)
  have "well_typed ?s [Num 1, Num 1, Num 1, Str (replicate 26 0x61)]"
    by (simp add: MessageChangeOperatorControl_def build_defs well_typed_def conforms_def
        in_storage_def supported_def)
  moreover have "\<not> round_trips ?s [Num 1, Num 1, Num 1, Str (replicate 26 0x61)] True"
    by (simp add: MessageChangeOperatorControl_def build_defs round_trips_def enc_defs dec_defs)
  ultimately show "\<exists>s. newDialectMessage MessageChangeOperatorControl = Inr s \<and>
        well_typed s [Num 1, Num 1, Num 1, Str (replicate 26 0x61)] \<and>
        \<not> round_trips s [Num 1, Num 1, Num 1, Str (replicate 26 0x61)] True"
    using s by blast
  have "well_typed ?s [Num 1, Num 1, Num 1, Str [0x61, 0x00, 0x62]]"
    by (simp add: MessageChangeOperatorControl_def build_defs well_typed_def conforms_def
        in_storage_def supported_def)
  moreover have "\<not> round_trips ?s [Num 1, Num 1, Num 1, Str [0x61, 0x00, 0x62]] True"
    by (simp add: MessageChangeOperatorControl_def build_defs round_trips_def enc_defs dec_defs)
  ultimately show "\<exists>s. newDialectMessage MessageChangeOperatorControl = Inr s \<and>
        well_typed s [Num 1, Num 1, Num 1, Str [0x61, 0x00, 0x62]] \<and>
        \<not> round_trips s [Num 1, Num 1, Num 1, Str [0x61, 0x00, 0x62]] True"
    using s by blast
next
  let ?s = "projr (newDialectMessage MessageHeartbeat)"
  have s: "newDialectMessage MessageHeartbeat = Inr ?s"
    by (simp add: MessageHeartbeat_def build_defs)
  have "well_typed ?s [Num 256, Num 2, Num 3, Num 6, Num 4, Num 5]"
    by (simp add: MessageHeartbeat_def build_defs well_typed_def conforms_def
        in_storage_def supported_def)
  moreover have "\<not> round_trips ?s [Num 256, Num 2, Num 3, Num 6, Num 4, Num 5] False"
    by (simp add: MessageHeartbeat_def build_defs round_trips_def enc_defs dec_defs
        clear_extensions_def)
  ultimately show "\<exists>s. newDialectMessage MessageHeartbeat = Inr s \<and>
        well_typed s [Num 256, Num 2, Num 3, Num 6, Num 4, Num 5] \<and>
        \<not> round_trips s [Num 256, Num 2, Num 3, Num 6, Num 4, Num 5] False"
    using s by blast
next
  let ?m = "\<lparr>md_name = ''MessageEmpty'', md_id = 0, md_fields = []\<rparr>"
  let ?s = "projr (newDialectMessage ?m)"
  have s: "newDialectMessage ?m = Inr ?s" by (simp add: build_defs)
  have "well_typed ?s []" by (simp add: build_defs well_typed_def)
  moreover have "\<not> round_trips ?s [] True"
    by (simp add: build_defs round_trips_def enc_defs dec_defs)
  moreover have "\<not> round_trips ?s [] False"
    by (simp add: build_defs round_trips_def enc_defs dec_defs)
  ultimately show "\<exists>s. newDialectMessage ?m = Inr s \<and> well_typed s [] \<and>
        \<not> round_trips s [] True \<and> \<not> round_trips s [] False"
    using s by blast
qed

end
